theory Spec2Isabelle
  imports Complex_Main "HOL-Library.Multiset" "HOL-Library.Word"
begin

section \<open>Pixel buffers\<close>

text \<open>
  The program (\<^verbatim>\<open>block_image_encryption.py\<close>) works on images of the imaging library
  in mode RGB: a size \<open>(width, height)\<close> and one 3-byte pixel per position. An image is
  a record of its size and its rows of pixels; \<open>wf_image\<close> says that the rows match the
  size, which every image the library hands out satisfies. The library keeps the size in
  two C integers (\<^verbatim>\<open>xsize\<close>, \<^verbatim>\<open>ysize\<close>), so the record keeps it in two 32-bit words;
  \<open>im_width\<close> and \<open>im_height\<close> read them as the naturals that \<^verbatim>\<open>img.size\<close> returns.

  \<^verbatim>\<open>Image.new\<close>, \<^verbatim>\<open>crop\<close> and \<^verbatim>\<open>paste\<close> are the library's operations, not the
  program's; they are written here as the library behaves, pixel by pixel. Opening and
  saving files, and decoding the key file, are outside the model: the operations below
  start from the decoded image and key and end with what they would save.
\<close>

type_synonym pixel = "8 word \<times> 8 word \<times> 8 word"

definition black :: pixel where
  "black = (0, 0, 0)"

record image =
  xsize :: "32 word"
  ysize :: "32 word"
  im_rows :: "pixel list list"

definition im_width :: "image \<Rightarrow> nat" where
  "im_width im = unat (xsize im)"

definition im_height :: "image \<Rightarrow> nat" where
  "im_height im = unat (ysize im)"

text \<open>No size reaches \<open>max_size\<close>.\<close>

definition max_size :: nat where
  "max_size = 2 ^ 32"

definition wf_image :: "image \<Rightarrow> bool" where
  "wf_image im \<longleftrightarrow>
     length (im_rows im) = im_height im \<and> list_all (\<lambda>r. length r = im_width im) (im_rows im)"

text \<open>The pixel at column \<open>x\<close>, row \<open>y\<close>; outside the image the library reads black.\<close>

definition pixel_at :: "image \<Rightarrow> int \<Rightarrow> int \<Rightarrow> pixel" where
  "pixel_at im x y =
     (if 0 \<le> x \<and> x < int (im_width im) \<and> 0 \<le> y \<and> y < int (im_height im)
      then im_rows im ! nat y ! nat x else black)"

text \<open>
  The image of size \<open>(w, h)\<close> with pixel \<open>f x y\<close> at \<open>(x, y)\<close>. Every size it is given
  below is at most that of an opened image, so it fits the words.
\<close>

definition make_image :: "nat \<Rightarrow> nat \<Rightarrow> (int \<Rightarrow> int \<Rightarrow> pixel) \<Rightarrow> image" where
  "make_image w h f =
     \<lparr>xsize = of_nat w, ysize = of_nat h,
      im_rows = map (\<lambda>y. map (\<lambda>x. f (int x) (int y)) [0..<w]) [0..<h]\<rparr>"

text \<open>\<^verbatim>\<open>Image.new('RGB', (width, height))\<close>: every pixel black.\<close>

definition image_new :: "nat \<Rightarrow> nat \<Rightarrow> image" where
  "image_new w h = make_image w h (\<lambda>x y. black)"

text \<open>
  \<^verbatim>\<open>img.crop((left, upper, right, lower))\<close>: a new image of size
  \<open>(right - left, lower - upper)\<close> whose pixel \<open>(x, y)\<close> is the source's pixel
  \<open>(left + x, upper + y)\<close>.
\<close>

definition crop :: "image \<Rightarrow> int \<times> int \<times> int \<times> int \<Rightarrow> image" where
  "crop im box =
     (case box of (left, upper, right, lower) \<Rightarrow>
        make_image (nat (right - left)) (nat (lower - upper))
          (\<lambda>x y. pixel_at im (left + x) (upper + y)))"

text \<open>
  \<^verbatim>\<open>dst.paste(src, (left, upper))\<close> with a 2-tuple: the region has the size of \<open>src\<close>,
  its upper left corner is \<open>(left, upper)\<close>, and the part of it that lies outside \<open>dst\<close>
  is dropped. The size of \<open>src\<close> is never compared with anything. The library mutates
  \<open>dst\<close>; the model returns the new image.
\<close>

definition paste :: "image \<Rightarrow> image \<Rightarrow> int \<times> int \<Rightarrow> image" where
  "paste dst src pos =
     (case pos of (left, upper) \<Rightarrow>
        make_image (im_width dst) (im_height dst)
          (\<lambda>x y. if left \<le> x \<and> x < left + int (im_width src) \<and>
                    upper \<le> y \<and> y < upper + int (im_height src)
                 then pixel_at src (x - left) (y - upper)
                 else pixel_at dst x y))"

section \<open>Exceptions and results\<close>

text \<open>
  Both operations run inside \<^verbatim>\<open>try\<close>: an exception is caught, a message is printed and
  nothing is saved. \<open>Unexpected e\<close> is the generic handler (\<^verbatim>\<open>except Exception\<close>);
  \<open>KeySizeMismatch\<close> is the explicit check of the key's length in
  \<^verbatim>\<open>block_unscramble\<close>, which prints its own message and returns. \<open>Inr\<close> is a run
  that reaches \<^verbatim>\<open>save\<close>, with what it saves.
\<close>

datatype exc = ZeroDivisionError | IndexError | ValueError

datatype error = KeySizeMismatch | Unexpected exc

text \<open>Python list indexing and item assignment: negative indices count from the end.\<close>

definition py_index :: "'a list \<Rightarrow> int \<Rightarrow> exc + 'a" where
  "py_index xs i =
     (let n = int (length xs); k = (if i < 0 then i + n else i)
      in if 0 \<le> k \<and> k < n then Inr (xs ! nat k) else Inl IndexError)"

definition py_assign :: "'a list \<Rightarrow> int \<Rightarrow> 'a \<Rightarrow> exc + 'a list" where
  "py_assign xs i v =
     (let n = int (length xs); k = (if i < 0 then i + n else i)
      in if 0 \<le> k \<and> k < n then Inr (xs[nat k := v]) else Inl IndexError)"

text \<open>A \<^verbatim>\<open>for\<close> loop whose body may raise: the first exception ends the loop.\<close>

fun for_each :: "('a \<Rightarrow> 's \<Rightarrow> exc + 's) \<Rightarrow> 'a list \<Rightarrow> 's \<Rightarrow> exc + 's" where
  "for_each body [] s = Inr s"
| "for_each body (x # xs) s =
     (case body x s of Inl e \<Rightarrow> Inl e | Inr s' \<Rightarrow> for_each body xs s')"

section \<open>Grid geometry\<close>

text \<open>
  \<^verbatim>\<open>math.ceil(width / block_size)\<close> on integers: true division, then the ceiling.
  Division by zero raises. Otherwise the quotient is the double nearest to \<open>a / b\<close>
  (ties to even), and the result is the ceiling of that double:
  \<^item> a quotient of magnitude at most \<open>2^-1075\<close> (half the smallest double) is rounded to
    zero, and the result is 0 - where the exact ceiling of a positive quotient is 1;
  \<^item> otherwise, for \<open>\<bar>a\<bar> < 2^53\<close>, which holds for every image size, the rounded
    quotient lies on the same side of every integer as the exact one (integers of that
    size are doubles and rounding is monotone; a quotient that is not an integer keeps a
    distance of at least \<open>1 / \<bar>b\<bar>\<close> from the integers, more than half the spacing of
    the doubles there), so the result is the exact ceiling, \<open>- (- a div b)\<close> with the
    flooring \<open>div\<close>, for either sign of \<open>b\<close>.
\<close>

definition underflow_bound :: int where
  "underflow_bound = 2 ^ 1075"

definition ceil_div :: "int \<Rightarrow> int \<Rightarrow> exc + int" where
  "ceil_div a b =
     (if b = 0 then Inl ZeroDivisionError
      else if \<bar>a\<bar> * underflow_bound \<le> \<bar>b\<bar> then Inr 0
      else Inr (- (- a div b)))"

text \<open>\<^verbatim>\<open>range(n)\<close>, empty for \<open>n \<le> 0\<close>.\<close>

definition range_upto :: "int \<Rightarrow> nat list" where
  "range_upto n = [0..<nat n]"

text \<open>
  \<^verbatim>\<open>for i in range(rows): for j in range(cols)\<close>: the pairs \<open>(i, j)\<close> in the order the
  nested loops visit them.
\<close>

definition grid_positions :: "int \<Rightarrow> int \<Rightarrow> (nat \<times> nat) list" where
  "grid_positions rows cols = List.product (range_upto rows) (range_upto cols)"

text \<open>The crop box of the block in row \<open>i\<close>, column \<open>j\<close> (lines 30-33 and 118-121); \<open>upper\<close> and
  \<open>lower\<close> are the source's \<^verbatim>\<open>top\<close> and \<^verbatim>\<open>bottom\<close>.\<close>

definition block_box :: "nat \<Rightarrow> nat \<Rightarrow> int \<Rightarrow> nat \<times> nat \<Rightarrow> int \<times> int \<times> int \<times> int" where
  "block_box width height block_size p =
     (case p of (i, j) \<Rightarrow>
        let left = int j * block_size;
            upper = int i * block_size;
            right = min ((int j + 1) * block_size) (int width);
            lower = min ((int i + 1) * block_size) (int height)
        in (left, upper, right, lower))"

text \<open>The extraction loop of \<^verbatim>\<open>block_scramble\<close> (lines 26-37).\<close>

definition original_blocks_of :: "image \<Rightarrow> int \<Rightarrow> int \<Rightarrow> int \<Rightarrow> image list" where
  "original_blocks_of img block_size cols rows =
     map (\<lambda>p. crop img (block_box (im_width img) (im_height img) block_size p))
       (grid_positions rows cols)"

text \<open>The extraction loop of \<^verbatim>\<open>block_unscramble\<close> (lines 114-123).\<close>

definition scrambled_blocks_of :: "image \<Rightarrow> int \<Rightarrow> int \<Rightarrow> int \<Rightarrow> image list" where
  "scrambled_blocks_of scrambled_img block_size cols rows =
     map (\<lambda>p. crop scrambled_img
                (block_box (im_width scrambled_img) (im_height scrambled_img) block_size p))
       (grid_positions rows cols)"

section \<open>The permutation generator\<close>

text \<open>
  Modelled from the spec: \<^verbatim>\<open>random.shuffle\<close> is the standard library's and is not in the
  repository. The spec asks for a Fisher-Yates shuffle over an injected random source:
  for \<open>i\<close> from the last index down to 1, draw \<open>j\<close> in \<open>[0, i]\<close> and exchange the
  elements at \<open>i\<close> and \<open>j\<close>. \<open>draw i\<close> is the random number consumed at index \<open>i\<close>,
  reduced into \<open>[0, i]\<close>.
\<close>

definition shuffle :: "(nat \<Rightarrow> nat) \<Rightarrow> 'a list \<Rightarrow> 'a list" where
  \<comment> \<open>Modelled from the spec: the library's \<^verbatim>\<open>random.shuffle\<close>, as a Fisher-Yates shuffle.\<close>
  "shuffle draw x =
     fold (\<lambda>i x. let j = draw i mod (i + 1) in x[i := x ! j, j := x ! i]) (rev [1..<length x]) x"

text \<open>
  The permutation generator for \<open>n\<close> blocks: the shuffle of \<^verbatim>\<open>list(range(n))\<close>, as lines
  41-42 build it.
\<close>

definition permutation_of :: "(nat \<Rightarrow> nat) \<Rightarrow> nat \<Rightarrow> int list" where
  "permutation_of draw n = shuffle draw (map int [0..<n])"

section \<open>Scramble\<close>

text \<open>The body of the paste loop of \<^verbatim>\<open>block_scramble\<close> (lines 51-63).\<close>

definition scramble_step ::
  "image list \<Rightarrow> int list \<Rightarrow> int \<Rightarrow> int \<Rightarrow> nat \<times> nat \<Rightarrow> image \<Rightarrow> exc + image" where
  "scramble_step original_blocks permutation block_size cols p scrambled_img =
     (case p of (i, j) \<Rightarrow>
        let current_grid_index = int i * cols + int j in
        if current_grid_index < int (length permutation) then
          (case py_index permutation current_grid_index of
             Inl e \<Rightarrow> Inl e
           | Inr original_block_source_index \<Rightarrow>
               (case py_index original_blocks original_block_source_index of
                  Inl e \<Rightarrow> Inl e
                | Inr block_to_paste \<Rightarrow>
                    Inr (paste scrambled_img block_to_paste
                           (int j * block_size, int i * block_size))))
        else Inr scrambled_img)"

text \<open>
  \<^verbatim>\<open>block_scramble\<close> from the decoded image on: \<open>img\<close> is the RGB image that was opened,
  and \<open>random_shuffle\<close> stands for the library's \<^verbatim>\<open>random.shuffle\<close>, applied to
  \<^verbatim>\<open>list(range(len(original_blocks)))\<close> (lines 41-42); \<open>shuffle draw\<close> above is one
  such procedure for every random source. \<open>Inr (scrambled_img, permutation)\<close> is what the
  run saves: the scrambled image and the key file's list.
\<close>

definition block_scramble ::
  "image \<Rightarrow> int \<Rightarrow> (int list \<Rightarrow> int list) \<Rightarrow> error + image \<times> int list" where
  "block_scramble img block_size random_shuffle =
     (let width = im_width img; height = im_height img in
      case ceil_div (int width) block_size of
        Inl e \<Rightarrow> Inl (Unexpected e)
      | Inr cols \<Rightarrow>
      (case ceil_div (int height) block_size of
        Inl e \<Rightarrow> Inl (Unexpected e)
      | Inr rows \<Rightarrow>
          let original_blocks = original_blocks_of img block_size cols rows;
              permutation = random_shuffle (map int [0..<length original_blocks])
          in case for_each (scramble_step original_blocks permutation block_size cols)
                    (grid_positions rows cols) (image_new width height) of
               Inl e \<Rightarrow> Inl (Unexpected e)
             | Inr scrambled_img \<Rightarrow> Inr (scrambled_img, permutation)))"

section \<open>Unscramble\<close>

text \<open>
  The reconstruction loop (lines 132-139): the slots start as \<^verbatim>\<open>None\<close>, and step \<open>k\<close>
  stores the scrambled block \<open>k\<close> at index \<open>permutation[k]\<close>.
\<close>

definition reconstruct_step ::
  "image list \<Rightarrow> int list \<Rightarrow> nat \<Rightarrow> image option list \<Rightarrow> exc + image option list" where
  "reconstruct_step scrambled_blocks permutation k unscrambled_blocks_ordered =
     (case py_index permutation (int k) of
        Inl e \<Rightarrow> Inl e
      | Inr original_idx \<Rightarrow>
          (case py_index scrambled_blocks (int k) of
             Inl e \<Rightarrow> Inl e
           | Inr b \<Rightarrow> py_assign unscrambled_blocks_ordered original_idx (Some b)))"

definition reconstruct :: "image list \<Rightarrow> int list \<Rightarrow> exc + image option list" where
  "reconstruct scrambled_blocks permutation =
     for_each (reconstruct_step scrambled_blocks permutation) [0..<length permutation]
       (replicate (length scrambled_blocks) None)"

text \<open>
  The body of the paste loop of \<^verbatim>\<open>block_unscramble\<close> (lines 150-155); the state is the
  image and \<^verbatim>\<open>block_idx_counter\<close>. Pasting \<^verbatim>\<open>None\<close> raises \<^verbatim>\<open>ValueError\<close> in the library
  (it cannot tell the region's size).
\<close>

definition unscramble_step ::
  "image option list \<Rightarrow> int \<Rightarrow> nat \<times> nat \<Rightarrow> image \<times> nat \<Rightarrow> exc + image \<times> nat" where
  "unscramble_step unscrambled_blocks_ordered block_size p st =
     (case p of (i, j) \<Rightarrow>
      case st of (unscrambled_img, block_idx_counter) \<Rightarrow>
        if block_idx_counter < length unscrambled_blocks_ordered then
          (case unscrambled_blocks_ordered ! block_idx_counter of
             None \<Rightarrow> Inl ValueError
           | Some block_to_paste \<Rightarrow>
               Inr (paste unscrambled_img block_to_paste
                      (int j * block_size, int i * block_size),
                    block_idx_counter + 1))
        else Inr (unscrambled_img, block_idx_counter))"

text \<open>
  \<^verbatim>\<open>block_unscramble\<close> from the decoded inputs on: \<open>scrambled_img\<close> is the RGB image that
  was opened and \<open>permutation\<close> the list of integers read from the key file. \<open>Inr\<close> is
  the image the run saves.
\<close>

definition block_unscramble :: "image \<Rightarrow> int list \<Rightarrow> int \<Rightarrow> error + image" where
  "block_unscramble scrambled_img permutation block_size =
     (let width = im_width scrambled_img; height = im_height scrambled_img in
      case ceil_div (int width) block_size of
        Inl e \<Rightarrow> Inl (Unexpected e)
      | Inr cols \<Rightarrow>
      (case ceil_div (int height) block_size of
        Inl e \<Rightarrow> Inl (Unexpected e)
      | Inr rows \<Rightarrow>
          let scrambled_blocks = scrambled_blocks_of scrambled_img block_size cols rows in
          if length permutation \<noteq> length scrambled_blocks then Inl KeySizeMismatch
          else
            (case reconstruct scrambled_blocks permutation of
               Inl e \<Rightarrow> Inl (Unexpected e)
             | Inr unscrambled_blocks_ordered \<Rightarrow>
                 (case for_each (unscramble_step unscrambled_blocks_ordered block_size)
                         (grid_positions rows cols) (image_new width height, 0) of
                    Inl e \<Rightarrow> Inl (Unexpected e)
                  | Inr (unscrambled_img, block_idx_counter) \<Rightarrow> Inr unscrambled_img))))"

section \<open>The block size prompt of the shell\<close>

text \<open>
  \<^verbatim>\<open>main\<close> asks for the block size until the answer is empty (the default 32 stays) or
  a positive integer (lines 187-201). An answer is modelled by what \<^verbatim>\<open>strip\<close> and
  \<^verbatim>\<open>int\<close> make of it; the list holds the answers still to come, and \<open>None\<close> is a
  prompt left waiting when they run out.
\<close>

datatype answer = Empty | Number int | NotANumber

fun prompt_block_size :: "answer list \<Rightarrow> int option" where
  "prompt_block_size [] = None"
| "prompt_block_size (Empty # rest) = Some 32"
| "prompt_block_size (Number temp_block_size # rest) =
     (if temp_block_size \<le> 0 then prompt_block_size rest else Some temp_block_size)"
| "prompt_block_size (NotANumber # rest) = prompt_block_size rest"

section \<open>The grid as the specification words it\<close>

text \<open>
  The specification's Grid: \<open>cols = ceil(width / BlockSize)\<close> and
  \<open>rows = ceil(height / BlockSize)\<close> as ceilings of the real quotients,
  \<open>BlockCount = cols * rows\<close>, and for a linear index \<open>g\<close> the clipped rectangle with
  \<open>col = g % cols\<close> and \<open>row = g / cols\<close>. These follow the specification's words and are
  compared with the loops of the source below.
\<close>

definition spec_cols :: "nat \<Rightarrow> int \<Rightarrow> int" where
  "spec_cols width block_size = \<lceil>real width / real_of_int block_size\<rceil>"

definition spec_rows :: "nat \<Rightarrow> int \<Rightarrow> int" where
  "spec_rows height block_size = \<lceil>real height / real_of_int block_size\<rceil>"

definition spec_block_count :: "nat \<Rightarrow> nat \<Rightarrow> int \<Rightarrow> nat" where
  "spec_block_count width height block_size =
     nat (spec_cols width block_size * spec_rows height block_size)"

definition spec_rect :: "nat \<Rightarrow> nat \<Rightarrow> int \<Rightarrow> nat \<Rightarrow> int \<times> int \<times> int \<times> int" where
  "spec_rect width height block_size g =
     (let cols = spec_cols width block_size;
          col = int g mod cols;
          row = int g div cols
      in (col * block_size, row * block_size,
          min ((col + 1) * block_size) (int width),
          min ((row + 1) * block_size) (int height)))"

text \<open>A pixel lies in a rectangle \<open>[left, right) \<times> [upper, lower)\<close>.\<close>

definition in_box :: "int \<times> int \<times> int \<times> int \<Rightarrow> int \<Rightarrow> int \<Rightarrow> bool" where
  "in_box box x y =
     (case box of (left, upper, right, lower) \<Rightarrow>
        left \<le> x \<and> x < right \<and> upper \<le> y \<and> y < lower)"

section \<open>Sequences of pastes\<close>

text \<open>A list of pastes \<open>(block, left, upper)\<close> applied to an image in order.\<close>

definition paste_all :: "(image \<times> int \<times> int) list \<Rightarrow> image \<Rightarrow> image" where
  "paste_all ops im = fold (\<lambda>(b, l, u) im. paste im b (l, u)) ops im"

text \<open>The pixels a paste \<open>(block, left, upper)\<close> would write, before clipping to the image.\<close>

definition covers :: "image \<times> int \<times> int \<Rightarrow> int \<Rightarrow> int \<Rightarrow> bool" where
  "covers op x y =
     (case op of (b, l, u) \<Rightarrow> in_box (l, u, l + int (im_width b), u + int (im_height b)) x y)"

text \<open>
  A key as the data model has it: a list that holds each index of \<open>[0, n)\<close> exactly once.
\<close>

definition is_permutation :: "nat \<Rightarrow> int list \<Rightarrow> bool" where
  "is_permutation n p \<longleftrightarrow> mset p = mset (map int [0..<n])"

text \<open>
  For this image and block size the ceilings that the source computes are the grid's:
  neither quotient is rounded to zero.
\<close>

definition grid_exact :: "image \<Rightarrow> int \<Rightarrow> bool" where
  "grid_exact img block_size \<longleftrightarrow>
     ceil_div (int (im_width img)) block_size = Inr (spec_cols (im_width img) block_size) \<and>
     ceil_div (int (im_height img)) block_size = Inr (spec_cols (im_height img) block_size)"

text \<open>The paste that either loop makes at linear index \<open>g\<close> of a grid with \<open>c\<close> columns.\<close>

definition grid_paste :: "(nat \<Rightarrow> image) \<Rightarrow> int \<Rightarrow> nat \<Rightarrow> nat \<Rightarrow> image \<times> int \<times> int" where
  "grid_paste blk block_size c g = (blk g, int (g mod c) * block_size, int (g div c) * block_size)"

section \<open>Sample inputs\<close>

text \<open>A 3 x 1 image with three distinct non-black pixels, and a 2 x 1 image.\<close>

definition img3 :: image where
  "img3 = \<lparr>xsize = 3, ysize = 1, im_rows = [[(1, 1, 1), (2, 2, 2), (3, 3, 3)]]\<rparr>"

definition img2 :: image where
  "img2 = \<lparr>xsize = 2, ysize = 1, im_rows = [[(1, 1, 1), (2, 2, 2)]]\<rparr>"

text \<open>
  What the program saves for \<open>img3\<close> with block size 2 and the permutation \<open>[1, 0]\<close>,
  and what it makes of that image again with the same key.
\<close>

definition scrambled3 :: image where
  "scrambled3 = \<lparr>xsize = 3, ysize = 1, im_rows = [[(3, 3, 3), (0, 0, 0), (1, 1, 1)]]\<rparr>"

definition restored3 :: image where
  "restored3 = \<lparr>xsize = 3, ysize = 1, im_rows = [[(1, 1, 1), (0, 0, 0), (3, 3, 3)]]\<rparr>"

text \<open>The random source whose every draw selects index 0.\<close>

definition draw_first :: "nat \<Rightarrow> nat" where
  "draw_first i = 0"

section \<open>Pixels of made, cropped and pasted images\<close>

lemma im_size_bound [simp]: "im_width im < max_size" "im_height im < max_size"
  using unsigned_less[where 'b=32 and w="xsize im"] unsigned_less[where 'b=32 and w="ysize im"]
  by (simp_all add: im_width_def im_height_def max_size_def)

lemma unat_size: "w < max_size \<Longrightarrow> unat (of_nat w :: 32 word) = w"
  by (simp add: unat_of_nat max_size_def)

lemma make_image_size [simp]:
  "w < max_size \<Longrightarrow> im_width (make_image w h f) = w"
  "h < max_size \<Longrightarrow> im_height (make_image w h f) = h"
  by (simp_all add: make_image_def im_width_def im_height_def unat_size)

lemma wf_make_image [simp]: "w < max_size \<Longrightarrow> h < max_size \<Longrightarrow> wf_image (make_image w h f)"
  by (simp add: wf_image_def make_image_def list_all_iff im_width_def im_height_def unat_size)

lemma pixel_at_make_image:
  assumes "w < max_size" "h < max_size"
  shows "pixel_at (make_image w h f) x y =
     (if 0 \<le> x \<and> x < int w \<and> 0 \<le> y \<and> y < int h then f x y else black)"
proof (cases "0 \<le> x \<and> x < int w \<and> 0 \<le> y \<and> y < int h")
  case True
  then have "nat x < w" "nat y < h" by auto
  with True assms show ?thesis by (simp add: pixel_at_def) (simp add: make_image_def)
next
  case False
  with assms show ?thesis by (auto simp add: pixel_at_def)
qed

lemma image_eqI:
  assumes "wf_image a" "wf_image b" "im_width a = im_width b" "im_height a = im_height b"
    and px: "\<And>x y. 0 \<le> x \<Longrightarrow> x < int (im_width a) \<Longrightarrow> 0 \<le> y \<Longrightarrow> y < int (im_height a) \<Longrightarrow>
           pixel_at a x y = pixel_at b x y"
  shows "a = (b::image)"
proof -
  have len: "length (im_rows a) = length (im_rows b)"
    using assms by (simp add: wf_image_def)
  have "im_rows a = im_rows b"
  proof (rule nth_equalityI[OF len])
    fix i assume i: "i < length (im_rows a)"
    then have ih: "i < im_height a" "i < im_height b" using assms by (simp_all add: wf_image_def)
    have la: "length (im_rows a ! i) = im_width a"
      using assms(1) i by (simp add: wf_image_def list_all_length)
    have lb: "length (im_rows b ! i) = im_width a"
      using assms(2,3) i len by (simp add: wf_image_def list_all_length)
    show "im_rows a ! i = im_rows b ! i"
    proof (rule nth_equalityI)
      show "length (im_rows a ! i) = length (im_rows b ! i)" using la lb by simp
    next
      fix j assume "j < length (im_rows a ! i)"
      then have j: "j < im_width a" using la by simp
      from px[of "int j" "int i"] j ih assms(3,4)
      show "im_rows a ! i ! j = im_rows b ! i ! j"
        by (simp add: pixel_at_def)
    qed
  qed
  moreover have "xsize a = xsize b" "ysize a = ysize b"
    using assms(3,4) by (simp_all add: im_width_def im_height_def word_unat_eq_iff)
  ultimately show ?thesis by simp
qed

lemma crop_size [simp]:
  "nat (r - l) < max_size \<Longrightarrow> im_width (crop im (l, u, r, b)) = nat (r - l)"
  "nat (b - u) < max_size \<Longrightarrow> im_height (crop im (l, u, r, b)) = nat (b - u)"
  by (simp_all add: crop_def)

lemma wf_crop [simp]:
  "nat (r - l) < max_size \<Longrightarrow> nat (b - u) < max_size \<Longrightarrow> wf_image (crop im (l, u, r, b))"
  by (simp add: crop_def)

lemma paste_size [simp]:
  "im_width (paste dst src pos) = im_width dst" "im_height (paste dst src pos) = im_height dst"
  by (simp_all add: paste_def split: prod.splits)

lemma wf_paste [simp]: "wf_image (paste dst src pos)"
  by (simp add: paste_def split: prod.splits)

lemma image_new_size [simp]:
  "w < max_size \<Longrightarrow> im_width (image_new w h) = w"
  "h < max_size \<Longrightarrow> im_height (image_new w h) = h"
  by (simp_all add: image_new_def)

lemma wf_image_new [simp]: "w < max_size \<Longrightarrow> h < max_size \<Longrightarrow> wf_image (image_new w h)"
  by (simp add: image_new_def)

lemma pixel_at_outside:
  "\<not> (0 \<le> x \<and> x < int (im_width im) \<and> 0 \<le> y \<and> y < int (im_height im)) \<Longrightarrow>
   pixel_at im x y = black"
  by (auto simp add: pixel_at_def)

lemma pixel_at_image_new [simp]:
  "w < max_size \<Longrightarrow> h < max_size \<Longrightarrow> pixel_at (image_new w h) x y = black"
  by (simp add: image_new_def pixel_at_make_image)

lemma pixel_at_crop:
  assumes "nat (r - l) < max_size" "nat (b - u) < max_size"
  shows "pixel_at (crop im (l, u, r, b)) x y =
     (if 0 \<le> x \<and> x < r - l \<and> 0 \<le> y \<and> y < b - u then pixel_at im (l + x) (u + y) else black)"
  using assms by (auto simp add: crop_def pixel_at_make_image)

lemma pixel_at_paste:
  "pixel_at (paste dst src (l, u)) x y =
     (if l \<le> x \<and> x < l + int (im_width src) \<and> u \<le> y \<and> y < u + int (im_height src) \<and>
         0 \<le> x \<and> x < int (im_width dst) \<and> 0 \<le> y \<and> y < int (im_height dst)
      then pixel_at src (x - l) (y - u) else pixel_at dst x y)"
  by (auto simp add: paste_def pixel_at_make_image pixel_at_outside)

section \<open>The shuffle permutes\<close>

lemma shuffle_fold_mset:
  "\<forall>i \<in> set is. i < length x \<Longrightarrow>
   mset (fold (\<lambda>i x. let j = draw i mod (i + 1) in x[i := x ! j, j := x ! i]) is x) = mset x"
proof (induction "is" arbitrary: x)
  case Nil
  then show ?case by simp
next
  case (Cons i "is")
  let ?j = "draw i mod (i + 1)"
  let ?x' = "x[i := x ! ?j, ?j := x ! i]"
  have i: "i < length x" using Cons.prems by simp
  have "?j < i + 1" by simp
  with i have j: "?j < length x" by linarith
  have "mset ?x' = mset x" using mset_swap[OF j i] .
  moreover have "\<forall>k \<in> set is. k < length ?x'" using Cons.prems by simp
  ultimately show ?case using Cons.IH[of ?x'] by (simp add: Let_def)
qed

lemma mset_shuffle: "mset (shuffle draw x) = mset x"
  unfolding shuffle_def by (rule shuffle_fold_mset) auto

lemma mset_permutation_of: "mset (permutation_of draw n) = mset (map int [0..<n])"
  by (simp add: permutation_of_def mset_shuffle)

lemma length_permutation_of [simp]: "length (permutation_of draw n) = n"
  using mset_eq_length[OF mset_permutation_of, of draw n] by simp

lemma set_permutation_of: "set (permutation_of draw n) = {0..<int n}"
proof -
  have "set (permutation_of draw n) = set (map int [0..<n])"
    using mset_eq_setD[OF mset_permutation_of] .
  also have "\<dots> = {0..<int n}"
    by (simp add: image_int_atLeastLessThan)
  finally show ?thesis .
qed

lemma distinct_permutation_of: "distinct (permutation_of draw n)"
proof -
  have "distinct (map int [0..<n])" by (simp add: distinct_map)
  then show ?thesis
    using mset_eq_imp_distinct_iff[OF mset_permutation_of] by blast
qed

text \<open>
  Claim C4. For every \<open>n \<ge> 0\<close> and every random source, the permutation that the
  generator produces for \<open>n\<close> blocks has length \<open>n\<close>, has no repeated entry, and its
  entries are exactly the integers of \<open>[0, n)\<close>: each of them appears exactly once.
\<close>

theorem permutation_generator_bijection:
  "length (permutation_of draw n) = n \<and>
   distinct (permutation_of draw n) \<and>
   set (permutation_of draw n) = {0..<int n}"
  by (simp add: distinct_permutation_of set_permutation_of)

section \<open>The grid in linear order\<close>

lemma grid_positions_eq:
  "0 \<le> rows \<Longrightarrow> 0 \<le> cols \<Longrightarrow>
   grid_positions rows cols = map (\<lambda>g. (g div nat cols, g mod nat cols)) [0..<nat rows * nat cols]"
proof (rule nth_equalityI)
  show "length (grid_positions rows cols) = length (map (\<lambda>g. (g div nat cols, g mod nat cols)) [0..<nat rows * nat cols])"
    by (simp add: grid_positions_def range_upto_def)
next
  fix g assume "g < length (grid_positions rows cols)"
  then have g: "g < nat rows * nat cols" by (simp add: grid_positions_def range_upto_def)
  then have c: "0 < nat cols" by (cases "nat cols") auto
  have "g div nat cols < nat rows" using g c
    by (simp add: less_mult_imp_div_less)
  then show "grid_positions rows cols ! g = map (\<lambda>g. (g div nat cols, g mod nat cols)) [0..<nat rows * nat cols] ! g"
    using g c by (simp add: grid_positions_def range_upto_def product_nth)
qed

section \<open>Ceiling division and the cells of the grid\<close>

lemma spec_cols_eq: "spec_cols w b = - (- int w div b)"
proof -
  have "\<lceil>real_of_int (int w) / real_of_int b\<rceil> = - (- int w div b)"
    by (rule ceiling_divide_eq_div)
  then show ?thesis by (simp add: spec_cols_def)
qed

lemma spec_rows_eq: "spec_rows h b = - (- int h div b)"
proof -
  have "\<lceil>real_of_int (int h) / real_of_int b\<rceil> = - (- int h div b)"
    by (rule ceiling_divide_eq_div)
  then show ?thesis by (simp add: spec_rows_def)
qed

lemma spec_rows_as_cols: "spec_rows h b = spec_cols h b"
  by (simp add: spec_rows_def spec_cols_def)

lemma underflow_bound_pos: "1 \<le> underflow_bound"
  by (simp add: underflow_bound_def)

lemma ceil_div_spec_cols_gen:
  assumes "0 < block_size" and "width = 0 \<or> block_size < int width * underflow_bound"
  shows "ceil_div (int width) block_size = Inr (spec_cols width block_size)"
proof (cases "width = 0")
  case True
  then show ?thesis using assms(1) by (simp add: ceil_div_def spec_cols_eq)
next
  case False
  then have "\<not> \<bar>int width\<bar> * underflow_bound \<le> \<bar>block_size\<bar>"
    using assms by simp
  then show ?thesis using assms(1) by (simp add: ceil_div_def spec_cols_eq)
qed

lemma ceil_div_spec_cols:
  assumes "0 < block_size" "block_size < underflow_bound"
  shows "ceil_div (int width) block_size = Inr (spec_cols width block_size)"
proof (rule ceil_div_spec_cols_gen[OF assms(1)])
  show "width = 0 \<or> block_size < int width * underflow_bound"
  proof (cases "width = 0")
    case False
    then have "1 \<le> int width" by simp
    then have "1 * underflow_bound \<le> int width * underflow_bound"
      by (rule mult_right_mono) (use underflow_bound_pos in simp)
    then show ?thesis using assms(2) by simp
  qed simp
qed

lemma ceil_div_spec_cols_dvd:
  assumes "0 < block_size" "block_size dvd int width"
  shows "ceil_div (int width) block_size = Inr (spec_cols width block_size)"
proof (rule ceil_div_spec_cols_gen[OF assms(1)])
  show "width = 0 \<or> block_size < int width * underflow_bound"
  proof (cases "width = 0")
    case False
    then have w: "0 < int width" by simp
    then have "block_size \<le> int width" using assms(2) by (simp add: zdvd_imp_le)
    moreover have "int width * 2 \<le> int width * underflow_bound"
      using w by (intro mult_left_mono) (simp_all add: underflow_bound_def)
    ultimately show ?thesis using w by linarith
  qed simp
qed

lemma grid_exact_bound:
  "0 < bs \<Longrightarrow> bs < underflow_bound \<Longrightarrow> grid_exact img bs"
  by (simp add: grid_exact_def ceil_div_spec_cols)

lemma grid_exact_dvd:
  "0 < bs \<Longrightarrow> bs dvd int (im_width img) \<Longrightarrow> bs dvd int (im_height img) \<Longrightarrow> grid_exact img bs"
  by (simp add: grid_exact_def ceil_div_spec_cols_dvd)

lemma grid_exact_same_size:
  "im_width a = im_width b \<Longrightarrow> im_height a = im_height b \<Longrightarrow> grid_exact a bs = grid_exact b bs"
  by (simp add: grid_exact_def)

lemma grid_exactD:
  assumes "grid_exact img bs"
  shows "ceil_div (int (im_width img)) bs = Inr (spec_cols (im_width img) bs)"
    and "ceil_div (int (im_height img)) bs = Inr (spec_cols (im_height img) bs)"
  using assms by (simp_all add: grid_exact_def)

lemma ceil_bounds:
  fixes a b :: int
  assumes "0 < b"
  shows "a \<le> - (- a div b) * b" "(- (- a div b) - 1) * b < a"
proof -
  define q where "q = - a div b"
  have e: "q * b + (- a mod b) = - a" unfolding q_def by (rule div_mult_mod_eq)
  have m: "0 \<le> - a mod b" "- a mod b < b" using assms by simp_all
  have d: "(- q - 1) * b = - (q * b) - b" "- q * b = - (q * b)" by (simp_all add: algebra_simps)
  show "a \<le> - (- a div b) * b" unfolding q_def[symmetric] d using e m by linarith
  show "(- (- a div b) - 1) * b < a" unfolding q_def[symmetric] d using e m by linarith
qed

lemma ceil_nonneg:
  fixes a b :: int
  assumes "0 < b" "0 \<le> a"
  shows "0 \<le> - (- a div b)"
proof -
  have "- a div b \<le> 0" using assms by (intro div_nonpos_pos_le0) simp_all
  then show ?thesis by simp
qed

lemma int_div_cell:
  fixes x b j :: int
  assumes "0 < b" "j * b \<le> x" "x < (j + 1) * b"
  shows "x div b = j"
proof -
  let ?r = "x - j * b"
  have r: "0 \<le> ?r" "?r < b" using assms by (simp_all add: algebra_simps)
  have "x = ?r + j * b" by simp
  then have "x div b = (?r + j * b) div b" by simp
  also have "\<dots> = ?r div b + j" using assms(1) by (subst div_mult_self1) simp_all
  also have "?r div b = 0" using r by (simp add: div_pos_pos_trivial)
  finally show ?thesis by simp
qed

lemma int_cell_bounds:
  fixes x b :: int
  assumes "0 < b"
  shows "(x div b) * b \<le> x" "x < (x div b + 1) * b"
proof -
  define q where "q = x div b"
  have e: "q * b + x mod b = x" unfolding q_def by (rule div_mult_mod_eq)
  have m: "0 \<le> x mod b" "x mod b < b" using assms by simp_all
  have d: "(q + 1) * b = q * b + b" by (simp add: algebra_simps)
  show "(x div b) * b \<le> x" unfolding q_def[symmetric] using e m by linarith
  show "x < (x div b + 1) * b" unfolding q_def[symmetric] d using e m by linarith
qed

lemma spec_cols_nonneg: "0 < b \<Longrightarrow> 0 \<le> spec_cols w b"
  unfolding spec_cols_eq by (rule ceil_nonneg) simp_all

lemma spec_cols_le_one:
  assumes "0 < b" "int w \<le> b"
  shows "spec_cols w b \<le> 1"
proof (rule ccontr)
  assume "\<not> spec_cols w b \<le> 1"
  then have "1 \<le> spec_cols w b - 1" by simp
  then have "1 * b \<le> (spec_cols w b - 1) * b"
    by (rule mult_right_mono) (use assms(1) in simp)
  moreover have "(spec_cols w b - 1) * b < int w"
    unfolding spec_cols_eq by (rule ceil_bounds(2)[OF assms(1)])
  ultimately show False using assms(2) by simp
qed

lemma spec_rows_nonneg: "0 < b \<Longrightarrow> 0 \<le> spec_rows h b"
  unfolding spec_rows_eq by (rule ceil_nonneg) simp_all

lemma set_grid_positions:
  "set (grid_positions rows cols) = {0..<nat rows} \<times> {0..<nat cols}"
  by (simp add: grid_positions_def range_upto_def)

lemma distinct_grid_positions: "distinct (grid_positions rows cols)"
  by (simp add: grid_positions_def range_upto_def distinct_product)

lemma length_grid_positions:
  "0 \<le> rows \<Longrightarrow> 0 \<le> cols \<Longrightarrow> length (grid_positions rows cols) = nat (cols * rows)"
  by (simp add: grid_positions_def range_upto_def nat_mult_distrib mult.commute)

lemma block_box_spec_rect:
  assumes "0 \<le> spec_cols w bs"
  shows "block_box w h bs (g div nat (spec_cols w bs), g mod nat (spec_cols w bs)) = spec_rect w h bs g"
proof -
  define C where "C = nat (spec_cols w bs)"
  have c: "spec_cols w bs = int C" using assms by (simp add: C_def)
  have "int (g mod C) = int g mod int C" "int (g div C) = int g div int C"
    by (simp_all add: zmod_int zdiv_int)
  then show ?thesis
    unfolding C_def[symmetric] by (simp add: block_box_def spec_rect_def Let_def c)
qed

lemma blocks_by_index:
  assumes "0 < bs"
  shows "map (\<lambda>p. crop im (block_box w h bs p)) (grid_positions (spec_rows h bs) (spec_cols w bs))
       = map (\<lambda>g. crop im (spec_rect w h bs g)) [0..<spec_block_count w h bs]"
proof -
  have c: "0 \<le> spec_cols w bs" and r: "0 \<le> spec_rows h bs"
    using assms by (simp_all add: spec_cols_nonneg spec_rows_nonneg)
  have n: "nat (spec_rows h bs) * nat (spec_cols w bs) = spec_block_count w h bs"
    using c r by (simp add: spec_block_count_def nat_mult_distrib mult.commute)
  show ?thesis
    unfolding grid_positions_eq[OF r c] n
    by (simp add: comp_def block_box_spec_rect[OF c])
qed

text \<open>
  Claim C5 at the 3 x 1 image with the block size \<open>10^400\<close>, which the shell accepts.
  The grid has 1 column, 1 row and 1 block. The source rounds both quotients to zero and
  gets 0 columns and 0 rows, although its comment says that it rounds up; the extraction
  loops of \<^verbatim>\<open>block_scramble\<close> and of \<^verbatim>\<open>block_unscramble\<close> extract no block.
\<close>

theorem grid_geometry_fails_on_underflow:
  "spec_cols (im_width img3) (10 ^ 400) = 1 \<and> spec_rows (im_height img3) (10 ^ 400) = 1 \<and>
   spec_block_count (im_width img3) (im_height img3) (10 ^ 400) = 1 \<and>
   ceil_div (int (im_width img3)) (10 ^ 400) = Inr 0 \<and>
   ceil_div (int (im_height img3)) (10 ^ 400) = Inr 0 \<and>
   original_blocks_of img3 (10 ^ 400) 0 0 = [] \<and>
   scrambled_blocks_of img3 (10 ^ 400) 0 0 = []"
  by (simp add: ceil_div_def underflow_bound_def spec_cols_eq spec_rows_eq spec_block_count_def
      original_blocks_of_def scrambled_blocks_of_def grid_positions_def range_upto_def
      img3_def im_width_def im_height_def)

text \<open>
  Below that range the grid is the specification's. For a block size \<open>> 0\<close> and below
  \<open>2^1075\<close> (where no quotient is rounded to zero), both extraction loops compute the grid
  the specification describes: \<^verbatim>\<open>math.ceil(width / block_size)\<close> is the ceiling of the
  real quotient (likewise for the rows), and the list of blocks that \<^verbatim>\<open>block_scramble\<close>
  extracts, and the list that \<^verbatim>\<open>block_unscramble\<close> extracts from an image of the same
  size, hold at every linear index \<open>g < cols * rows\<close> the crop of the rectangle
  \<open>left = col * block_size\<close>, \<open>top = row * block_size\<close>,
  \<open>right = min ((col + 1) * block_size) width\<close>,
  \<open>bottom = min ((row + 1) * block_size) height\<close> with \<open>col = g mod cols\<close> and
  \<open>row = g div cols\<close>. The rectangles depend on the size and the block size only.
\<close>

theorem grid_geometry:
  assumes "0 < block_size" and "block_size < underflow_bound"
    and "im_width img = width" "im_height img = height"
    and "im_width scrambled_img = width" "im_height scrambled_img = height"
  shows "ceil_div (int width) block_size = Inr (spec_cols width block_size) \<and>
         ceil_div (int height) block_size = Inr (spec_rows height block_size) \<and>
         original_blocks_of img block_size (spec_cols width block_size) (spec_rows height block_size)
           = map (\<lambda>g. crop img (spec_rect width height block_size g))
               [0..<spec_block_count width height block_size] \<and>
         scrambled_blocks_of scrambled_img block_size
             (spec_cols width block_size) (spec_rows height block_size)
           = map (\<lambda>g. crop scrambled_img (spec_rect width height block_size g))
               [0..<spec_block_count width height block_size]"
proof (intro conjI)
  show "ceil_div (int width) block_size = Inr (spec_cols width block_size)"
    by (rule ceil_div_spec_cols[OF assms(1,2)])
  show "ceil_div (int height) block_size = Inr (spec_rows height block_size)"
    unfolding spec_rows_as_cols by (rule ceil_div_spec_cols[OF assms(1,2)])
  show "original_blocks_of img block_size (spec_cols width block_size) (spec_rows height block_size)
           = map (\<lambda>g. crop img (spec_rect width height block_size g))
               [0..<spec_block_count width height block_size]"
    unfolding original_blocks_of_def assms(3,4) by (rule blocks_by_index[OF assms(1)])
  show "scrambled_blocks_of scrambled_img block_size
             (spec_cols width block_size) (spec_rows height block_size)
           = map (\<lambda>g. crop scrambled_img (spec_rect width height block_size g))
               [0..<spec_block_count width height block_size]"
    unfolding scrambled_blocks_of_def assms(5,6) by (rule blocks_by_index[OF assms(1)])
qed

lemma block_box_bounds:
  assumes bs: "0 < bs" and cols: "cols = spec_cols w bs" and rows: "rows = spec_cols h bs"
    and p: "(i, j) \<in> set (grid_positions rows cols)"
    and b: "block_box w h bs (i, j) = (l, u, r, b)"
  shows "0 \<le> l \<and> l < r \<and> r \<le> int w \<and> r \<le> l + bs \<and> 0 \<le> u \<and> u < b \<and> b \<le> int h \<and> b \<le> u + bs"
proof -
  have c: "cols = - (- int w div bs)" and r: "rows = - (- int h div bs)"
    using cols rows by (simp_all add: spec_cols_eq)
  have ij: "int i < rows" "int j < cols" using p by (auto simp: set_grid_positions)
  have "(cols - 1) * bs < int w" unfolding c by (rule ceil_bounds(2)[OF bs])
  moreover have "int j * bs \<le> (cols - 1) * bs" using ij bs by (intro mult_right_mono) simp_all
  ultimately have jw: "int j * bs < int w" by linarith
  have "(rows - 1) * bs < int h" unfolding r by (rule ceil_bounds(2)[OF bs])
  moreover have "int i * bs \<le> (rows - 1) * bs" using ij bs by (intro mult_right_mono) simp_all
  ultimately have ih: "int i * bs < int h" by linarith
  have e: "(int j + 1) * bs = int j * bs + bs" "(int i + 1) * bs = int i * bs + bs"
    by (simp_all add: algebra_simps)
  have "0 \<le> int j * bs" "0 \<le> int i * bs" using bs by simp_all
  then show ?thesis
    using b jw ih bs unfolding block_box_def Let_def prod.case e by auto
qed

lemma cell_in_grid:
  assumes bs: "0 < bs" and cols: "cols = spec_cols w bs" and rows: "rows = spec_cols h bs"
    and x: "0 \<le> x" "x < int w" and y: "0 \<le> y" "y < int h"
  shows "(nat (y div bs), nat (x div bs)) \<in> set (grid_positions rows cols)"
    and "in_box (block_box w h bs (nat (y div bs), nat (x div bs))) x y"
proof -
  have c: "cols = - (- int w div bs)" and r: "rows = - (- int h div bs)"
    using cols rows by (simp_all add: spec_cols_eq)
  have xd: "0 \<le> x div bs" and yd: "0 \<le> y div bs" using x y bs by (simp_all add: pos_imp_zdiv_nonneg_iff)
  have "(x div bs) * bs \<le> x" using int_cell_bounds(1)[OF bs] .
  also have "x < int w" by fact
  also have "int w \<le> cols * bs" unfolding c by (rule ceil_bounds(1)[OF bs])
  finally have xc: "x div bs < cols" using bs by (simp add: mult_less_cancel_right)
  have "(y div bs) * bs \<le> y" using int_cell_bounds(1)[OF bs] .
  also have "y < int h" by fact
  also have "int h \<le> rows * bs" unfolding r by (rule ceil_bounds(1)[OF bs])
  finally have yr: "y div bs < rows" using bs by (simp add: mult_less_cancel_right)
  from xc yr show "(nat (y div bs), nat (x div bs)) \<in> set (grid_positions rows cols)"
    using xd yd by (auto simp: set_grid_positions)
  show "in_box (block_box w h bs (nat (y div bs), nat (x div bs))) x y"
    using xd yd x y int_cell_bounds[OF bs, of x] int_cell_bounds[OF bs, of y]
    by (simp add: in_box_def block_box_def Let_def)
qed

lemma in_box_cell:
  assumes bs: "0 < bs" and "in_box (block_box w h bs (i, j)) x y"
  shows "i = nat (y div bs)" "j = nat (x div bs)"
proof -
  have "int j * bs \<le> x" "x < (int j + 1) * bs" "int i * bs \<le> y" "y < (int i + 1) * bs"
    using assms(2) by (simp_all add: in_box_def block_box_def Let_def)
  then have "x div bs = int j" "y div bs = int i"
    using int_div_cell[OF bs] by blast+
  then show "i = nat (y div bs)" "j = nat (x div bs)" by simp_all
qed

text \<open>
  Claim C6 at the 3 x 1 buffer with the block size \<open>10^400\<close>, which does not divide 3
  and which the shell accepts. Both quotients are rounded to zero, the source gets 0
  columns and 0 rows, and its loops visit no rectangle at all: no pixel of the buffer is
  covered, where the grid has one rectangle, the whole buffer. \<^verbatim>\<open>block_scramble\<close> then
  saves a black image and the empty key.
\<close>

theorem grid_tiles_nothing_on_underflow:
  "(3::int) mod 10 ^ 400 \<noteq> 0 \<and>
   spec_block_count 3 1 (10 ^ 400) = 1 \<and> spec_rect 3 1 (10 ^ 400) 0 = (0, 0, 3, 1) \<and>
   ceil_div (int 3) (10 ^ 400) = Inr 0 \<and> ceil_div (int 1) (10 ^ 400) = Inr 0 \<and>
   grid_positions 0 0 = [] \<and>
   block_scramble img3 (10 ^ 400) (shuffle draw_first) = Inr (image_new 3 1, [])"
proof -
  have "block_scramble img3 (10 ^ 400) (shuffle draw_first) = Inr (image_new 3 1, [])"
    by code_simp
  then show ?thesis
    by (simp add: ceil_div_def underflow_bound_def grid_positions_def range_upto_def
        spec_block_count_def spec_cols_eq spec_rows_eq spec_rect_def)
qed

text \<open>
  Below that range the rectangles tile the buffer. For a positive size that an image can
  have (below \<open>2^32\<close>) and a block size \<open>> 0\<close> and below \<open>2^1075\<close> (divisible or not),
  the nested loops visit \<open>cols * rows\<close> distinct grid positions; every block rectangle is non-empty and
  lies within the buffer (the last column and row are clipped to it); and every pixel of
  the buffer lies in exactly one of the rectangles: they are pairwise disjoint and their
  union is the whole buffer.
\<close>

theorem grid_tiles_buffer:
  assumes "0 < width" "0 < height" "0 < block_size" "block_size < underflow_bound"
    and "ceil_div (int width) block_size = Inr cols"
    and "ceil_div (int height) block_size = Inr rows"
    and "width < max_size" "height < max_size"
  shows "length (grid_positions rows cols) = nat (cols * rows) \<and>
         distinct (grid_positions rows cols) \<and>
         (\<forall>p \<in> set (grid_positions rows cols).
            case block_box width height block_size p of
              (left, upper, right, lower) \<Rightarrow>
                0 \<le> left \<and> left < right \<and> right \<le> int width \<and>
                0 \<le> upper \<and> upper < lower \<and> lower \<le> int height) \<and>
         (\<forall>x y. 0 \<le> x \<and> x < int width \<and> 0 \<le> y \<and> y < int height \<longrightarrow>
            (\<exists>!p. p \<in> set (grid_positions rows cols) \<and>
                   in_box (block_box width height block_size p) x y))"
proof -
  have cs: "cols = spec_cols width block_size" and rs: "rows = spec_cols height block_size"
    using assms(5,6) ceil_div_spec_cols[OF assms(3,4)] by simp_all
  show ?thesis
proof (intro conjI ballI allI impI)
  have c: "cols = - (- int width div block_size)" and r: "rows = - (- int height div block_size)"
    using cs rs by (simp_all add: spec_cols_eq)
  have "0 \<le> cols" unfolding c by (rule ceil_nonneg) (use assms in simp_all)
  moreover have "0 \<le> rows" unfolding r by (rule ceil_nonneg) (use assms in simp_all)
  ultimately show "length (grid_positions rows cols) = nat (cols * rows)"
    by (simp add: length_grid_positions)
next
  show "distinct (grid_positions rows cols)" by (rule distinct_grid_positions)
next
  fix p assume p: "p \<in> set (grid_positions rows cols)"
  obtain i j where ij: "p = (i, j)" by (cases p)
  obtain l u r b where b: "block_box width height block_size (i, j) = (l, u, r, b)"
    by (cases "block_box width height block_size (i, j)")
  from block_box_bounds[OF assms(3) cs rs p[unfolded ij] b]
  show "case block_box width height block_size p of
          (left, upper, right, lower) \<Rightarrow>
            0 \<le> left \<and> left < right \<and> right \<le> int width \<and>
            0 \<le> upper \<and> upper < lower \<and> lower \<le> int height"
    by (simp add: ij b)
next
  fix x y assume xy: "0 \<le> x \<and> x < int width \<and> 0 \<le> y \<and> y < int height"
  show "\<exists>!p. p \<in> set (grid_positions rows cols) \<and> in_box (block_box width height block_size p) x y"
  proof (rule ex1I[of _ "(nat (y div block_size), nat (x div block_size))"])
    show "(nat (y div block_size), nat (x div block_size)) \<in> set (grid_positions rows cols) \<and>
          in_box (block_box width height block_size (nat (y div block_size), nat (x div block_size))) x y"
      using cell_in_grid[OF assms(3) cs rs, of x y] xy by simp
  next
    fix p assume "p \<in> set (grid_positions rows cols) \<and> in_box (block_box width height block_size p) x y"
    then show "p = (nat (y div block_size), nat (x div block_size))"
      using in_box_cell[OF assms(3), of width height "fst p" "snd p" x y] by (cases p) simp
  qed
qed
qed

section \<open>Sizes of the block lists\<close>

lemma spec_block_count_eq:
  "0 < bs \<Longrightarrow> spec_block_count w h bs = nat (spec_cols h bs) * nat (spec_cols w bs)"
  by (simp add: spec_block_count_def spec_rows_as_cols nat_mult_distrib spec_cols_nonneg mult.commute)

lemma length_grid_positions_spec:
  "0 < bs \<Longrightarrow>
   length (grid_positions (spec_cols h bs) (spec_cols w bs)) = spec_block_count w h bs"
  by (simp add: spec_block_count_eq grid_positions_def range_upto_def)

lemma length_scrambled_blocks_of:
  "0 < bs \<Longrightarrow>
   length (scrambled_blocks_of im bs (spec_cols (im_width im) bs) (spec_cols (im_height im) bs))
     = spec_block_count (im_width im) (im_height im) bs"
  by (simp add: scrambled_blocks_of_def length_grid_positions_spec)

lemma length_original_blocks_of:
  "0 < bs \<Longrightarrow>
   length (original_blocks_of im bs (spec_cols (im_width im) bs) (spec_cols (im_height im) bs))
     = spec_block_count (im_width im) (im_height im) bs"
  by (simp add: original_blocks_of_def length_grid_positions_spec)

text \<open>
  Claim C3 as stated fails, on the 3 x 1 image with the empty key. With block size
  \<open>-1\<close> the source computes \<open>cols = -3\<close> and \<open>rows = -1\<close>, so \<open>cols * rows = 3\<close>, but
  it extracts no block, accepts the empty key and saves a black image. With block size
  \<open>10^400\<close> the block count is 1, but both quotients are rounded to zero, no block is
  extracted, and the empty key is accepted again.
\<close>

theorem key_size_mismatch_counterexample:
  "ceil_div (int 3) (- 1) = Inr (- 3) \<and> ceil_div (int 1) (- 1) = Inr (- 1) \<and>
   length ([] :: int list) \<noteq> nat (- 3 * - 1) \<and>
   block_unscramble img3 [] (- 1) = Inr (image_new 3 1) \<and>
   length ([] :: int list) \<noteq> spec_block_count 3 1 (10 ^ 400) \<and>
   block_unscramble img3 [] (10 ^ 400) = Inr (image_new 3 1)"
proof -
  have "block_unscramble img3 [] (- 1) = Inr (image_new 3 1)" by code_simp
  moreover have "block_unscramble img3 [] (10 ^ 400) = Inr (image_new 3 1)" by code_simp
  moreover have "spec_block_count 3 1 (10 ^ 400) = 1"
    by (simp add: spec_block_count_def spec_cols_eq spec_rows_eq)
  moreover have "ceil_div (int 3) (- 1) = Inr (- 3)" "ceil_div (int 1) (- 1) = Inr (- 1)"
    by (simp_all add: ceil_div_def underflow_bound_def)
  ultimately show ?thesis by simp
qed

text \<open>
  Claim C3, amended. For a block size \<open>> 0\<close> and below \<open>2^1075\<close>: when the length of the
  supplied permutation differs from the block count \<open>cols * rows\<close> of the scrambled
  image, \<^verbatim>\<open>block_unscramble\<close> ends in the key-size branch (lines 126-129) and saves no
  image.
\<close>

theorem key_size_mismatch_rejected:
  assumes "0 < block_size" and "block_size < underflow_bound"
    and "length permutation \<noteq> spec_block_count (im_width scrambled_img) (im_height scrambled_img) block_size"
  shows "block_unscramble scrambled_img permutation block_size = Inl KeySizeMismatch"
  unfolding block_unscramble_def Let_def ceil_div_spec_cols[OF assms(1,2)] sum.case
      length_scrambled_blocks_of[OF assms(1)]
  using assms(3) by simp

text \<open>Claim C3, amended, at the 3 x 1 image (two blocks of size 2) with a key of one entry.\<close>

theorem key_size_mismatch_rejected_witness:
  "length [0::int] \<noteq> spec_block_count (im_width img3) (im_height img3) 2 \<and>
   block_unscramble img3 [0] 2 = Inl KeySizeMismatch"
proof -
  have bs: "(0::int) < 2" "(2::int) < underflow_bound" by (simp_all add: underflow_bound_def)
  have l: "length [0::int] \<noteq> spec_block_count (im_width img3) (im_height img3) 2"
    by (simp add: img3_def im_width_def im_height_def spec_block_count_def spec_cols_eq spec_rows_eq)
  from key_size_mismatch_rejected[OF bs l] l show ?thesis by simp
qed

section \<open>Non-positive block sizes\<close>

lemma prompt_block_size_positive:
  "prompt_block_size answers = Some block_size \<Longrightarrow> 0 < block_size"
  by (induction answers rule: prompt_block_size.induct) (auto split: if_splits)

text \<open>
  Claim C7 as stated fails: with block size \<open>-1\<close> both ceilings are negative, every loop
  is empty, and the run saves an all-black image and the empty key.
\<close>

theorem scramble_negative_block_size_counterexample:
  "block_scramble img3 (- 1) (shuffle draw_first) = Inr (image_new 3 1, [])"
  by code_simp

text \<open>
  Claim C7, amended. \<^verbatim>\<open>block_scramble\<close> has no check of the block size. With block size
  0 the first grid computation divides by zero; the generic handler reports it and nothing
  is saved. Positivity is the shell's business: the block size its prompt settles on is
  always positive.
\<close>

theorem scramble_block_size_guard:
  "block_scramble img 0 random_shuffle = Inl (Unexpected ZeroDivisionError) \<and>
   (prompt_block_size answers = Some block_size \<longrightarrow> 0 < block_size)"
  by (simp add: block_scramble_def ceil_div_def prompt_block_size_positive)

text \<open>Claim C7, amended, at a prompt that rejects 0, a non-number and -5 and accepts 16.\<close>

theorem scramble_block_size_guard_witness:
  "prompt_block_size [Number 0, NotANumber, Number (- 5), Number 16] = Some 16 \<and>
   (0::int) < 16 \<and>
   block_scramble img3 0 (shuffle draw_first) = Inl (Unexpected ZeroDivisionError)"
  using scramble_block_size_guard[of img3 "shuffle draw_first" "[Number 0, NotANumber, Number (- 5), Number 16]" 16]
  by simp

text \<open>
  Claim C1 at the 3 x 1 image with block size 2 and the drawn permutation \<open>[1, 0]\<close>: the
  1-pixel block lands in the 2-pixel rectangle and the 2-pixel block is clipped to the
  1-pixel rectangle, so the middle pixel is lost and the round trip does not return the
  original image.
\<close>

theorem round_trip_fails_on_ragged_grid:
  "block_scramble img3 2 (shuffle draw_first) = Inr (scrambled3, [1, 0]) \<and>
   block_unscramble scrambled3 [1, 0] 2 = Inr restored3 \<and>
   restored3 \<noteq> img3"
  by code_simp

section \<open>What a sequence of pastes leaves at a pixel\<close>

lemma paste_all_Nil [simp]: "paste_all [] im = im"
  by (simp add: paste_all_def)

lemma paste_all_Cons [simp]: "paste_all ((b, l, u) # ops) im = paste_all ops (paste im b (l, u))"
  by (simp add: paste_all_def)

lemma paste_all_append [simp]: "paste_all (ops @ ops') im = paste_all ops' (paste_all ops im)"
  by (simp add: paste_all_def)

lemma paste_all_size [simp]:
  "im_width (paste_all ops im) = im_width im" "im_height (paste_all ops im) = im_height im"
  by (induction ops arbitrary: im; auto)+

lemma wf_paste_all [simp]: "wf_image im \<Longrightarrow> wf_image (paste_all ops im)"
  by (induction ops arbitrary: im) auto

lemma pixel_at_paste_covers:
  "pixel_at (paste dst b (l, u)) x y =
     (if covers (b, l, u) x y \<and> 0 \<le> x \<and> x < int (im_width dst) \<and> 0 \<le> y \<and> y < int (im_height dst)
      then pixel_at b (x - l) (y - u) else pixel_at dst x y)"
  by (simp add: pixel_at_paste covers_def in_box_def)

lemma paste_all_miss:
  "\<forall>op \<in> set ops. \<not> covers op x y \<Longrightarrow> pixel_at (paste_all ops im) x y = pixel_at im x y"
proof (induction ops arbitrary: im)
  case Nil
  then show ?case by simp
next
  case (Cons op ops)
  obtain b l u where op: "op = (b, l, u)" by (cases op)
  from Cons show ?case by (simp add: op pixel_at_paste_covers)
qed

lemma paste_all_hit:
  assumes "covers (b, l, u) x y" and "\<forall>op \<in> set post. \<not> covers op x y"
    and "0 \<le> x" "x < int (im_width im)" "0 \<le> y" "y < int (im_height im)"
  shows "pixel_at (paste_all (pre @ (b, l, u) # post) im) x y = pixel_at b (x - l) (y - u)"
  using assms by (simp add: paste_all_miss pixel_at_paste_covers)

lemma covers_grid_paste_cell:
  assumes bs: "0 < bs" and c: "0 < c"
    and small: "int (im_width (blk g)) \<le> bs" "int (im_height (blk g)) \<le> bs"
    and cov: "covers (grid_paste blk bs c g) x y"
  shows "g = nat (y div bs) * c + nat (x div bs)"
proof -
  have "int (g mod c) * bs \<le> x" "x < (int (g mod c) + 1) * bs"
    "int (g div c) * bs \<le> y" "y < (int (g div c) + 1) * bs"
    using cov small by (simp_all add: covers_def grid_paste_def in_box_def algebra_simps)
  then have "x div bs = int (g mod c)" "y div bs = int (g div c)"
    using int_div_cell[OF bs] by blast+
  then have "nat (x div bs) = g mod c" "nat (y div bs) = g div c" by simp_all
  then show ?thesis by simp
qed

lemma covers_grid_paste_own:
  assumes bs: "0 < bs" and x: "0 \<le> x" "nat (x div bs) < c" and y: "0 \<le> y"
  shows "covers (grid_paste blk bs c (nat (y div bs) * c + nat (x div bs))) x y \<longleftrightarrow>
         x mod bs < int (im_width (blk (nat (y div bs) * c + nat (x div bs)))) \<and>
         y mod bs < int (im_height (blk (nat (y div bs) * c + nat (x div bs))))"
proof -
  let ?g = "nat (y div bs) * c + nat (x div bs)"
  have xd: "0 \<le> x div bs" and yd: "0 \<le> y div bs" using x y bs by (simp_all add: pos_imp_zdiv_nonneg_iff)
  have m: "?g mod c = nat (x div bs)" "?g div c = nat (y div bs)" using x by simp_all
  have l: "int (?g mod c) * bs = x - x mod bs" "int (?g div c) * bs = y - y mod bs"
    unfolding m using xd yd by (simp_all add: minus_mod_eq_div_mult)
  have "0 \<le> x mod bs" "0 \<le> y mod bs" using bs by simp_all
  then show ?thesis
    unfolding covers_def grid_paste_def prod.case in_box_def l by auto
qed

lemma grid_paste_pixel:
  assumes bs: "0 < bs"
    and small: "\<forall>g<n. int (im_width (blk g)) \<le> bs \<and> int (im_height (blk g)) \<le> bs"
    and x: "0 \<le> x" "x < int (im_width im)" "nat (x div bs) < c"
    and y: "0 \<le> y" "y < int (im_height im)"
    and g: "nat (y div bs) * c + nat (x div bs) < n"
  shows "pixel_at (paste_all (map (grid_paste blk bs c) [0..<n]) im) x y =
     (if x mod bs < int (im_width (blk (nat (y div bs) * c + nat (x div bs)))) \<and>
         y mod bs < int (im_height (blk (nat (y div bs) * c + nat (x div bs))))
      then pixel_at (blk (nat (y div bs) * c + nat (x div bs))) (x mod bs) (y mod bs)
      else pixel_at im x y)"
proof -
  let ?g = "nat (y div bs) * c + nat (x div bs)"
  have c: "0 < c" using x(3) by simp
  have other: "\<not> covers (grid_paste blk bs c k) x y" if "k < n" "k \<noteq> ?g" for k
    using covers_grid_paste_cell[OF bs c _ _, of blk k x y] small that by blast
  have xd: "0 \<le> x div bs" and yd: "0 \<le> y div bs" using x y bs by (simp_all add: pos_imp_zdiv_nonneg_iff)
  have m: "?g mod c = nat (x div bs)" "?g div c = nat (y div bs)" using x by simp_all
  have l: "x - int (?g mod c) * bs = x mod bs" "y - int (?g div c) * bs = y mod bs"
    unfolding m using xd yd by (simp_all add: minus_div_mult_eq_mod)
  show ?thesis
  proof (cases "covers (grid_paste blk bs c ?g) x y")
    case True
    have split: "[0..<n] = [0..<?g] @ ?g # [Suc ?g..<n]"
      using g by (metis le0 upt_add_eq_append upt_conv_Cons le_add2 less_imp_le_nat add.commute
          le_add_diff_inverse)
    have post: "\<forall>op \<in> set (map (grid_paste blk bs c) [Suc ?g..<n]). \<not> covers op x y"
      using other by auto
    have "pixel_at (paste_all (map (grid_paste blk bs c) [0..<n]) im) x y
        = pixel_at (blk ?g) (x - int (?g mod c) * bs) (y - int (?g div c) * bs)"
      unfolding split map_append list.map
      unfolding grid_paste_def[of blk bs c ?g]
      by (rule paste_all_hit[OF True[unfolded grid_paste_def] post x(1,2) y])
    then show ?thesis
      using True unfolding l covers_grid_paste_own[OF bs x(1,3) y(1)] by simp
  next
    case False
    have "\<not> covers (grid_paste blk bs c k) x y" if "k < n" for k
      using other[OF that] False by (cases "k = ?g") auto
    then have "\<forall>op \<in> set (map (grid_paste blk bs c) [0..<n]). \<not> covers op x y"
      by auto
    then have "pixel_at (paste_all (map (grid_paste blk bs c) [0..<n]) im) x y = pixel_at im x y"
      by (rule paste_all_miss)
    then show ?thesis
      using False unfolding covers_grid_paste_own[OF bs x(1,3) y(1)] by auto
  qed
qed

section \<open>The loops as sequences of pastes\<close>

lemma for_each_map: "for_each body (map h xs) s = for_each (\<lambda>x. body (h x)) xs s"
  by (induction xs arbitrary: s) (auto split: sum.splits)

lemma for_each_append:
  "for_each body (xs @ ys) s =
     (case for_each body xs s of Inl e \<Rightarrow> Inl e | Inr s' \<Rightarrow> for_each body ys s')"
  by (induction xs arbitrary: s) (auto split: sum.splits)

lemma for_each_pastes:
  assumes "\<And>g im. g \<in> set gs \<Longrightarrow> body g im = Inr (paste_all [op g] im)"
  shows "for_each body gs im = Inr (paste_all (map op gs) im)"
  using assms
proof (induction gs arbitrary: im)
  case Nil
  then show ?case by simp
next
  case (Cons g gs)
  have "paste_all (op g # map op gs) im = paste_all (map op gs) (paste_all [op g] im)"
    using paste_all_append[of "[op g]" "map op gs" im] by simp
  with Cons show ?case by simp
qed

lemma py_index_nth: "0 \<le> i \<Longrightarrow> i < int (length xs) \<Longrightarrow> py_index xs i = Inr (xs ! nat i)"
  by (simp add: py_index_def)

lemma py_assign_update:
  "0 \<le> i \<Longrightarrow> i < int (length xs) \<Longrightarrow> py_assign xs i v = Inr (xs[nat i := v])"
  by (simp add: py_assign_def)

lemma scramble_step_ok:
  assumes "0 < c" "g < length perm" "0 \<le> perm ! g" "perm ! g < int (length blocks)"
  shows "scramble_step blocks perm bs (int c) (g div c, g mod c) im =
           Inr (paste_all [grid_paste (\<lambda>g. blocks ! nat (perm ! g)) bs c g] im)"
proof -
  have "int (g div c) * int c + int (g mod c) = int g"
    by (metis of_nat_add of_nat_mult div_mult_mod_eq)
  then show ?thesis
    using assms by (simp add: scramble_step_def py_index_nth grid_paste_def)
qed

lemma scramble_loop:
  assumes "0 \<le> rows" "0 \<le> cols" "length perm = nat rows * nat cols"
    and "\<forall>g < length perm. 0 \<le> perm ! g \<and> perm ! g < int (length blocks)"
  shows "for_each (scramble_step blocks perm bs cols) (grid_positions rows cols) im =
           Inr (paste_all (map (grid_paste (\<lambda>g. blocks ! nat (perm ! g)) bs (nat cols))
                  [0..<nat rows * nat cols]) im)"
proof -
  have c: "cols = int (nat cols)" using assms(2) by simp
  show ?thesis
    unfolding grid_positions_eq[OF assms(1,2)] for_each_map
  proof (rule for_each_pastes)
    fix g im assume "g \<in> set [0..<nat rows * nat cols]"
    then have g: "g < length perm" using assms(3) by simp
    then have "0 < nat cols" using assms(3) by (cases "nat cols") auto
    from scramble_step_ok[OF this g, of blocks bs im] assms(4) g c
    show "scramble_step blocks perm bs cols (g div nat cols, g mod nat cols) im =
          Inr (paste_all [grid_paste (\<lambda>g. blocks ! nat (perm ! g)) bs (nat cols) g] im)"
      by simp
  qed
qed

lemma unscramble_loop:
  assumes "n \<le> length slots" "\<forall>k<n. slots ! k \<noteq> None" "m \<le> n"
  shows "for_each (unscramble_step slots bs) (map (\<lambda>g. (g div c, g mod c)) [m..<n]) (im, m) =
           Inr (paste_all (map (grid_paste (\<lambda>g. the (slots ! g)) bs c) [m..<n]) im, n)"
  using assms(3)
proof (induction "n - m" arbitrary: m im)
  case 0
  then show ?case by simp
next
  case (Suc d)
  then have m: "m < n" by simp
  then obtain b where b: "slots ! m = Some b" using assms(2) by auto
  have step: "unscramble_step slots bs (m div c, m mod c) (im, m) =
          Inr (paste im b (int (m mod c) * bs, int (m div c) * bs), Suc m)"
    using m assms(1) b by (simp add: unscramble_step_def)
  have IH: "for_each (unscramble_step slots bs) (map (\<lambda>g. (g div c, g mod c)) [Suc m..<n])
              (paste im b (int (m mod c) * bs, int (m div c) * bs), Suc m) =
           Inr (paste_all (map (grid_paste (\<lambda>g. the (slots ! g)) bs c) [Suc m..<n])
                  (paste im b (int (m mod c) * bs, int (m div c) * bs)), n)"
    using Suc.hyps(1)[of "Suc m"] Suc.hyps(2) m by simp
  show ?case
    unfolding upt_conv_Cons[OF m] list.map for_each.simps step sum.case IH
    by (simp add: grid_paste_def b)
qed

lemma unscramble_loop_none:
  assumes "n \<le> length slots" "m \<le> k" "k < n" "slots ! k = None"
  shows "for_each (unscramble_step slots bs) (map (\<lambda>g. (g div c, g mod c)) [m..<n]) (im, m) =
           Inl ValueError"
  using assms(2)
proof (induction "k - m" arbitrary: m im)
  case 0
  then have "m = k" by simp
  then show ?case
    using assms by (simp add: upt_conv_Cons unscramble_step_def)
next
  case (Suc d)
  then have m: "m < n" "m < k" using assms(3) by simp_all
  show ?case
  proof (cases "slots ! m")
    case None
    then show ?thesis using m assms(1) by (simp add: upt_conv_Cons unscramble_step_def)
  next
    case (Some b)
    have step: "unscramble_step slots bs (m div c, m mod c) (im, m) =
          Inr (paste im b (int (m mod c) * bs, int (m div c) * bs), Suc m)"
      using m assms(1) Some by (simp add: unscramble_step_def)
    show ?thesis
      unfolding upt_conv_Cons[OF m(1)] list.map for_each.simps step sum.case
      using Suc.hyps(1)[of "Suc m"] Suc.hyps(2) m by simp
  qed
qed

lemma reconstruct_step_ok:
  assumes "k < length perm" "k < length scr" "0 \<le> perm ! k" "perm ! k < int (length slots)"
  shows "reconstruct_step scr perm k slots = Inr (slots[nat (perm ! k) := Some (scr ! k)])"
  using assms by (simp add: reconstruct_step_def py_index_nth py_assign_update)

lemma reconstruct_prefix:
  assumes len: "length perm = length scr"
    and rng: "\<forall>k < length scr. 0 \<le> perm ! k \<and> perm ! k < int (length scr)"
    and m: "m \<le> length scr"
  shows "\<exists>slots. for_each (reconstruct_step scr perm) [0..<m] (replicate (length scr) None) = Inr slots \<and>
           length slots = length scr \<and>
           (\<forall>p < length scr. (\<forall>k<m. perm ! k \<noteq> int p) \<longrightarrow> slots ! p = None) \<and>
           (\<forall>k<m. (\<forall>k'. k < k' \<and> k' < m \<longrightarrow> perm ! k' \<noteq> perm ! k) \<longrightarrow>
                   slots ! nat (perm ! k) = Some (scr ! k))"
  using m
proof (induction m)
  case 0
  then show ?case by simp
next
  case (Suc m)
  then have mlt: "m < length scr" by simp
  from Suc obtain slots where
    run: "for_each (reconstruct_step scr perm) [0..<m] (replicate (length scr) None) = Inr slots"
    and l: "length slots = length scr"
    and none: "\<forall>p < length scr. (\<forall>k<m. perm ! k \<noteq> int p) \<longrightarrow> slots ! p = None"
    and some: "\<forall>k<m. (\<forall>k'. k < k' \<and> k' < m \<longrightarrow> perm ! k' \<noteq> perm ! k) \<longrightarrow>
                   slots ! nat (perm ! k) = Some (scr ! k)"
    by auto
  let ?s = "slots[nat (perm ! m) := Some (scr ! m)]"
  have pm: "0 \<le> perm ! m" "perm ! m < int (length scr)" using rng mlt by simp_all
  have step: "reconstruct_step scr perm m slots = Inr ?s"
    using reconstruct_step_ok[of m perm scr slots] mlt len l pm by simp
  have run': "for_each (reconstruct_step scr perm) [0..<Suc m] (replicate (length scr) None) = Inr ?s"
    by (simp add: for_each_append run step)
  have none': "\<forall>p < length scr. (\<forall>k<Suc m. perm ! k \<noteq> int p) \<longrightarrow> ?s ! p = None"
  proof (intro allI impI)
    fix p assume p: "p < length scr" and np: "\<forall>k<Suc m. perm ! k \<noteq> int p"
    then have "perm ! m \<noteq> int p" by simp
    then have "nat (perm ! m) \<noteq> p" using pm by auto
    moreover have "slots ! p = None" using none p np by simp
    ultimately show "?s ! p = None" by simp
  qed
  have some': "\<forall>k<Suc m. (\<forall>k'. k < k' \<and> k' < Suc m \<longrightarrow> perm ! k' \<noteq> perm ! k) \<longrightarrow>
                   ?s ! nat (perm ! k) = Some (scr ! k)"
  proof (intro allI impI)
    fix k assume k: "k < Suc m" and last: "\<forall>k'. k < k' \<and> k' < Suc m \<longrightarrow> perm ! k' \<noteq> perm ! k"
    show "?s ! nat (perm ! k) = Some (scr ! k)"
    proof (cases "k = m")
      case True
      then show ?thesis using pm l by simp
    next
      case False
      then have km: "k < m" using k by simp
      then have "perm ! m \<noteq> perm ! k" using last by simp
      moreover have "0 \<le> perm ! k" using rng km mlt by simp
      ultimately have "nat (perm ! m) \<noteq> nat (perm ! k)" using pm by auto
      moreover have "slots ! nat (perm ! k) = Some (scr ! k)" using some km last by simp
      ultimately show ?thesis by simp
    qed
  qed
  show ?case using run' l none' some' by (intro exI[of _ ?s]) simp
qed

section \<open>Permutations and blocks\<close>

lemma is_permutation_length: "is_permutation n p \<Longrightarrow> length p = n"
  using mset_eq_length[of p "map int [0..<n]"] by (simp add: is_permutation_def)

lemma is_permutation_set: "is_permutation n p \<Longrightarrow> set p = {0..<int n}"
proof -
  assume "is_permutation n p"
  then have "set p = set (map int [0..<n])"
    unfolding is_permutation_def by (rule mset_eq_setD)
  then show ?thesis by (simp add: image_int_atLeastLessThan)
qed

lemma is_permutation_distinct: "is_permutation n p \<Longrightarrow> distinct p"
proof -
  assume "is_permutation n p"
  then have "mset p = mset (map int [0..<n])" by (simp add: is_permutation_def)
  moreover have "distinct (map int [0..<n])" by (simp add: distinct_map)
  ultimately show ?thesis using mset_eq_imp_distinct_iff by blast
qed

lemma is_permutation_range:
  assumes "is_permutation n p" "g < n"
  shows "0 \<le> p ! g" "p ! g < int n"
proof -
  have "p ! g \<in> set p" using assms by (simp add: is_permutation_length)
  then show "0 \<le> p ! g" "p ! g < int n" using is_permutation_set[OF assms(1)] by auto
qed

lemma is_permutation_onto:
  assumes "is_permutation n p" "q < n"
  shows "\<exists>k<n. p ! k = int q"
proof -
  have "int q \<in> set p" using is_permutation_set[OF assms(1)] assms(2) by simp
  then show ?thesis using is_permutation_length[OF assms(1)] by (auto simp: in_set_conv_nth)
qed

lemma is_permutation_shuffle: "is_permutation n (shuffle draw (map int [0..<n]))"
  by (simp add: is_permutation_def mset_shuffle)

lemma cell_index_bound:
  fixes i j r c :: nat
  assumes "i < r" "j < c"
  shows "i * c + j < r * c"
proof -
  have "i * c + j < Suc i * c" using assms(2) by simp
  also have "\<dots> \<le> r * c" using assms(1) by (intro mult_le_mono1) simp
  finally show ?thesis .
qed

lemma nth_blocks:
  assumes "0 < bs" "p < spec_block_count w h bs"
  shows "map (\<lambda>q. crop im (block_box w h bs q)) (grid_positions (spec_cols h bs) (spec_cols w bs)) ! p
       = crop im (block_box w h bs (p div nat (spec_cols w bs), p mod nat (spec_cols w bs)))"
proof -
  have c: "0 \<le> spec_cols w bs" and r: "0 \<le> spec_cols h bs"
    using assms by (simp_all add: spec_cols_nonneg)
  have "p < nat (spec_cols h bs) * nat (spec_cols w bs)"
    using assms by (simp add: spec_block_count_eq)
  then show ?thesis
    unfolding grid_positions_eq[OF r c] by simp
qed

lemma div_mod_in_grid:
  assumes "0 < bs" "p < spec_block_count w h bs"
  shows "(p div nat (spec_cols w bs), p mod nat (spec_cols w bs))
           \<in> set (grid_positions (spec_cols h bs) (spec_cols w bs))"
proof -
  have p: "p < nat (spec_cols h bs) * nat (spec_cols w bs)"
    using assms by (simp add: spec_block_count_eq)
  then have c: "0 < nat (spec_cols w bs)" by (cases "nat (spec_cols w bs)") auto
  have "p div nat (spec_cols w bs) < nat (spec_cols h bs)"
    using p c by (simp add: less_mult_imp_div_less)
  then show ?thesis using c by (simp add: set_grid_positions)
qed

lemma box_fits:
  assumes "0 \<le> l" "r \<le> int (im_width im)" "0 \<le> u" "b \<le> int (im_height im)"
  shows "nat (r - l) < max_size" "nat (b - u) < max_size"
  using assms im_size_bound[of im] by linarith+

lemma block_box_fits:
  assumes "0 < bs" and "block_box (im_width im) (im_height im) bs (i, j) = (l, u, r, b)"
  shows "nat (r - l) < max_size" "nat (b - u) < max_size"
proof -
  have "0 \<le> int j * bs" "0 \<le> int i * bs" using assms(1) by simp_all
  moreover have "min ((int j + 1) * bs) (int (im_width im)) \<le> int (im_width im)"
    "min ((int i + 1) * bs) (int (im_height im)) \<le> int (im_height im)" by simp_all
  moreover have "l = int j * bs" "u = int i * bs" "r = min ((int j + 1) * bs) (int (im_width im))"
    "b = min ((int i + 1) * bs) (int (im_height im))"
    using assms(2) by (simp_all add: block_box_def Let_def)
  ultimately show "nat (r - l) < max_size" "nat (b - u) < max_size"
    using box_fits[of l r im u b] by simp_all
qed

lemma wf_block:
  "0 < bs \<Longrightarrow> wf_image (crop a (block_box (im_width im) (im_height im) bs (i, j)))"
  using block_box_fits[of bs im i j]
  by (cases "block_box (im_width im) (im_height im) bs (i, j)") simp

lemma block_small:
  assumes "0 < bs" "p < spec_block_count (im_width im) (im_height im) bs"
  shows "int (im_width (crop a (block_box (im_width im) (im_height im) bs
            (p div nat (spec_cols (im_width im) bs), p mod nat (spec_cols (im_width im) bs))))) \<le> bs"
    and "int (im_height (crop a (block_box (im_width im) (im_height im) bs
            (p div nat (spec_cols (im_width im) bs), p mod nat (spec_cols (im_width im) bs))))) \<le> bs"
proof -
  let ?q = "(p div nat (spec_cols (im_width im) bs), p mod nat (spec_cols (im_width im) bs))"
  obtain l u r b where b: "block_box (im_width im) (im_height im) bs ?q = (l, u, r, b)"
    by (cases "block_box (im_width im) (im_height im) bs ?q")
  note f = block_box_fits[OF assms(1) b]
  from block_box_bounds[OF assms(1) refl refl div_mod_in_grid[OF assms] b] f
  show "int (im_width (crop a (block_box (im_width im) (im_height im) bs ?q))) \<le> bs"
    and "int (im_height (crop a (block_box (im_width im) (im_height im) bs ?q))) \<le> bs"
    by (simp_all add: b)
qed

lemma pixel_at_block:
  assumes "0 < bs" "0 \<le> dx" "dx < bs" "0 \<le> dy" "dy < bs"
  shows "pixel_at (crop im (block_box (im_width im) (im_height im) bs (i, j))) dx dy
       = pixel_at im (int j * bs + dx) (int i * bs + dy)"
proof -
  have e: "(int j + 1) * bs = int j * bs + bs" "(int i + 1) * bs = int i * bs + bs"
    by (simp_all add: algebra_simps)
  have box: "block_box (im_width im) (im_height im) bs (i, j) =
      (int j * bs, int i * bs, min (int j * bs + bs) (int (im_width im)),
       min (int i * bs + bs) (int (im_height im)))"
    by (simp add: block_box_def Let_def e)
  note f = block_box_fits[OF assms(1) box]
  have "0 \<le> int j * bs" "0 \<le> int i * bs" using assms(1) by simp_all
  then show ?thesis
    using assms unfolding box pixel_at_crop[OF f]
    by (auto simp: pixel_at_def)
qed

lemma cell_of_pixel:
  assumes "0 < bs" "0 \<le> x" "x < int w" "0 \<le> y" "y < int h"
  shows "nat (x div bs) < nat (spec_cols w bs)"
    and "nat (y div bs) < nat (spec_cols h bs)"
    and "nat (y div bs) * nat (spec_cols w bs) + nat (x div bs) < spec_block_count w h bs"
proof -
  from cell_in_grid(1)[OF assms(1) refl refl assms(2-5)]
  show a: "nat (x div bs) < nat (spec_cols w bs)" and b: "nat (y div bs) < nat (spec_cols h bs)"
    by (simp_all add: set_grid_positions)
  show "nat (y div bs) * nat (spec_cols w bs) + nat (x div bs) < spec_block_count w h bs"
    unfolding spec_block_count_eq[OF assms(1)] by (rule cell_index_bound[OF b a])
qed

section \<open>The pixels of the scrambled and of the unscrambled image\<close>

lemma block_scramble_result:
  fixes img :: image and bs :: int and rs :: "int list \<Rightarrow> int list"
  defines "n \<equiv> spec_block_count (im_width img) (im_height img) bs"
  defines "blocks \<equiv> original_blocks_of img bs (spec_cols (im_width img) bs) (spec_cols (im_height img) bs)"
  assumes bs: "0 < bs" and perm: "is_permutation n (rs (map int [0..<n]))"
    and ex: "grid_exact img bs"
  shows "block_scramble img bs rs =
     Inr (paste_all
            (map (grid_paste (\<lambda>g. blocks ! nat (rs (map int [0..<n]) ! g)) bs
                    (nat (spec_cols (im_width img) bs))) [0..<n])
            (image_new (im_width img) (im_height img)),
          rs (map int [0..<n]))"
proof -
  have nz: "bs \<noteq> 0" using bs by simp
  have lb: "length blocks = n"
    unfolding blocks_def n_def by (rule length_original_blocks_of[OF bs])
  have c: "0 \<le> spec_cols (im_width img) bs" and r: "0 \<le> spec_cols (im_height img) bs"
    using bs by (simp_all add: spec_cols_nonneg)
  have n: "n = nat (spec_cols (im_height img) bs) * nat (spec_cols (im_width img) bs)"
    unfolding n_def by (rule spec_block_count_eq[OF bs])
  have lp: "length (rs (map int [0..<n])) = nat (spec_cols (im_height img) bs) * nat (spec_cols (im_width img) bs)"
    using is_permutation_length[OF perm] n by simp
  have rng: "\<forall>g < length (rs (map int [0..<n])). 0 \<le> rs (map int [0..<n]) ! g \<and>
               rs (map int [0..<n]) ! g < int (length blocks)"
    using is_permutation_range[OF perm] is_permutation_length[OF perm] lb by simp
  have loop: "for_each (scramble_step blocks (rs (map int [0..<n])) bs (spec_cols (im_width img) bs))
          (grid_positions (spec_cols (im_height img) bs) (spec_cols (im_width img) bs))
          (image_new (im_width img) (im_height img)) =
        Inr (paste_all
            (map (grid_paste (\<lambda>g. blocks ! nat (rs (map int [0..<n]) ! g)) bs
                    (nat (spec_cols (im_width img) bs))) [0..<n])
            (image_new (im_width img) (im_height img)))"
    using scramble_loop[OF r c lp rng, of bs "image_new (im_width img) (im_height img)"]
    unfolding n[symmetric] .
  show ?thesis
    unfolding block_scramble_def Let_def grid_exactD[OF ex] sum.case
      blocks_def[symmetric] lb loop
    by simp
qed

lemma grid_paste_pixel_new:
  assumes bs: "0 < bs"
    and small: "\<forall>g<n. int (im_width (blk g)) \<le> bs \<and> int (im_height (blk g)) \<le> bs"
    and x: "0 \<le> x" "x < int w" "nat (x div bs) < c"
    and y: "0 \<le> y" "y < int h"
    and g: "nat (y div bs) * c + nat (x div bs) < n"
    and sz: "w < max_size" "h < max_size"
  shows "pixel_at (paste_all (map (grid_paste blk bs c) [0..<n]) (image_new w h)) x y =
           pixel_at (blk (nat (y div bs) * c + nat (x div bs))) (x mod bs) (y mod bs)"
proof -
  have "pixel_at (blk (nat (y div bs) * c + nat (x div bs))) (x mod bs) (y mod bs) = black"
    if "\<not> (x mod bs < int (im_width (blk (nat (y div bs) * c + nat (x div bs)))) \<and>
            y mod bs < int (im_height (blk (nat (y div bs) * c + nat (x div bs)))))"
    using that by (intro pixel_at_outside) auto
  then show ?thesis
    using grid_paste_pixel[OF bs small x(1) _ x(3) y(1) _ g, of "image_new w h"] x(2) y(2) sz
    by auto
qed

lemma scramble_pixel:
  fixes img :: image and bs :: int and rs :: "int list \<Rightarrow> int list"
  defines "n \<equiv> spec_block_count (im_width img) (im_height img) bs"
  defines "c \<equiv> nat (spec_cols (im_width img) bs)"
  assumes bs: "0 < bs" and perm: "is_permutation n (rs (map int [0..<n]))"
    and ex: "grid_exact img bs"
    and res: "block_scramble img bs rs = Inr (scr, key)"
  shows "key = rs (map int [0..<n])"
    and "im_width scr = im_width img" and "im_height scr = im_height img" and "wf_image scr"
    and "0 \<le> x \<Longrightarrow> x < int (im_width img) \<Longrightarrow> 0 \<le> y \<Longrightarrow> y < int (im_height img) \<Longrightarrow>
         pixel_at scr x y =
           pixel_at img (int (nat (key ! (nat (y div bs) * c + nat (x div bs))) mod c) * bs + x mod bs)
                        (int (nat (key ! (nat (y div bs) * c + nat (x div bs))) div c) * bs + y mod bs)"
proof -
  let ?blocks = "original_blocks_of img bs (spec_cols (im_width img) bs) (spec_cols (im_height img) bs)"
  let ?perm = "rs (map int [0..<n])"
  let ?blk = "\<lambda>g. ?blocks ! nat (?perm ! g)"
  have r: "block_scramble img bs rs =
     Inr (paste_all (map (grid_paste ?blk bs c) [0..<n]) (image_new (im_width img) (im_height img)), ?perm)"
    unfolding n_def c_def
    by (rule block_scramble_result[where img=img and bs=bs and rs=rs, OF bs perm[unfolded n_def] ex])
  from r res show key: "key = ?perm" by simp
  from r res have scr: "scr = paste_all (map (grid_paste ?blk bs c) [0..<n]) (image_new (im_width img) (im_height img))"
    by simp
  show "im_width scr = im_width img" "im_height scr = im_height img" "wf_image scr"
    unfolding scr by simp_all
  have blk: "?blk g = crop img (block_box (im_width img) (im_height img) bs
                (nat (?perm ! g) div c, nat (?perm ! g) mod c))"
    and small: "int (im_width (?blk g)) \<le> bs \<and> int (im_height (?blk g)) \<le> bs" if "g < n" for g
  proof -
    have p: "nat (?perm ! g) < spec_block_count (im_width img) (im_height img) bs"
      using is_permutation_range[OF perm that] unfolding n_def by simp
    show b: "?blk g = crop img (block_box (im_width img) (im_height img) bs
                (nat (?perm ! g) div c, nat (?perm ! g) mod c))"
      unfolding original_blocks_of_def c_def by (rule nth_blocks[OF bs p])
    show "int (im_width (?blk g)) \<le> bs \<and> int (im_height (?blk g)) \<le> bs"
      unfolding b unfolding c_def using block_small[OF bs p] by simp
  qed
  show "pixel_at scr x y =
           pixel_at img (int (nat (key ! (nat (y div bs) * c + nat (x div bs))) mod c) * bs + x mod bs)
                        (int (nat (key ! (nat (y div bs) * c + nat (x div bs))) div c) * bs + y mod bs)"
    if x: "0 \<le> x" "x < int (im_width img)" and y: "0 \<le> y" "y < int (im_height img)"
  proof -
    let ?g = "nat (y div bs) * c + nat (x div bs)"
    have xc: "nat (x div bs) < c" and g: "?g < n"
      unfolding c_def n_def using cell_of_pixel[OF bs x y] by simp_all
    have "pixel_at scr x y = pixel_at (?blk ?g) (x mod bs) (y mod bs)"
      unfolding scr using small by (intro grid_paste_pixel_new[OF bs _ x xc y g]) simp_all
    also have "\<dots> = pixel_at img (int (nat (?perm ! ?g) mod c) * bs + x mod bs)
                                  (int (nat (?perm ! ?g) div c) * bs + y mod bs)"
      unfolding blk[OF g] using bs by (intro pixel_at_block) simp_all
    finally show ?thesis unfolding key .
  qed
qed

lemma reconstruct_permutation:
  assumes len: "length sblocks = n" and key: "is_permutation n key"
  shows "\<exists>slots. reconstruct sblocks key = Inr slots \<and> length slots = n \<and>
           (\<forall>k<n. slots ! nat (key ! k) = Some (sblocks ! k))"
proof -
  have lk: "length key = length sblocks" using is_permutation_length[OF key] len by simp
  have rng: "\<forall>k < length sblocks. 0 \<le> key ! k \<and> key ! k < int (length sblocks)"
    using is_permutation_range[OF key] len by simp
  from reconstruct_prefix[OF lk rng order_refl] obtain slots where
    run: "for_each (reconstruct_step sblocks key) [0..<length sblocks]
            (replicate (length sblocks) None) = Inr slots"
    and l: "length slots = length sblocks"
    and some: "\<forall>k<length sblocks. (\<forall>k'. k < k' \<and> k' < length sblocks \<longrightarrow> key ! k' \<noteq> key ! k) \<longrightarrow>
                   slots ! nat (key ! k) = Some (sblocks ! k)"
    by blast
  have d: "distinct key" by (rule is_permutation_distinct[OF key])
  have "slots ! nat (key ! k) = Some (sblocks ! k)" if "k < n" for k
  proof -
    have "key ! k' \<noteq> key ! k" if "k < k'" "k' < length sblocks" for k'
      using d that \<open>k < n\<close> lk len by (simp add: nth_eq_iff_index_eq)
    then show ?thesis using some that len by simp
  qed
  then show ?thesis
    using run l len lk by (auto simp: reconstruct_def)
qed

lemma block_unscramble_result:
  fixes scr :: image and bs :: int and key :: "int list"
  defines "n \<equiv> spec_block_count (im_width scr) (im_height scr) bs"
  defines "sblocks \<equiv> scrambled_blocks_of scr bs (spec_cols (im_width scr) bs) (spec_cols (im_height scr) bs)"
  assumes bs: "0 < bs" and key: "is_permutation n key" and ex: "grid_exact scr bs"
  shows "\<exists>slots. reconstruct sblocks key = Inr slots \<and> length slots = n \<and>
           (\<forall>k<n. slots ! nat (key ! k) = Some (sblocks ! k)) \<and>
           block_unscramble scr key bs =
             Inr (paste_all (map (grid_paste (\<lambda>g. the (slots ! g)) bs (nat (spec_cols (im_width scr) bs))) [0..<n])
                    (image_new (im_width scr) (im_height scr)))"
proof -
  have nz: "bs \<noteq> 0" using bs by simp
  have lb: "length sblocks = n"
    unfolding sblocks_def n_def by (rule length_scrambled_blocks_of[OF bs])
  from reconstruct_permutation[OF lb key] obtain slots where
    rec: "reconstruct sblocks key = Inr slots" and l: "length slots = n"
    and some: "\<forall>k<n. slots ! nat (key ! k) = Some (sblocks ! k)"
    by blast
  have c: "0 \<le> spec_cols (im_width scr) bs" and r: "0 \<le> spec_cols (im_height scr) bs"
    using bs by (simp_all add: spec_cols_nonneg)
  have n: "nat (spec_cols (im_height scr) bs) * nat (spec_cols (im_width scr) bs) = n"
    unfolding n_def by (rule spec_block_count_eq[OF bs, symmetric])
  have full: "\<forall>g<n. slots ! g \<noteq> None"
  proof (intro allI impI)
    fix g assume "g < n"
    from is_permutation_onto[OF key this] obtain k where "k < n" "key ! k = int g" by blast
    with some show "slots ! g \<noteq> None" by force
  qed
  have loop: "for_each (unscramble_step slots bs)
          (grid_positions (spec_cols (im_height scr) bs) (spec_cols (im_width scr) bs))
          (image_new (im_width scr) (im_height scr), 0) =
        Inr (paste_all (map (grid_paste (\<lambda>g. the (slots ! g)) bs (nat (spec_cols (im_width scr) bs))) [0..<n])
               (image_new (im_width scr) (im_height scr)), n)"
    unfolding grid_positions_eq[OF r c] n
    by (rule unscramble_loop) (use l full in simp_all)
  have "block_unscramble scr key bs =
             Inr (paste_all (map (grid_paste (\<lambda>g. the (slots ! g)) bs (nat (spec_cols (im_width scr) bs))) [0..<n])
                    (image_new (im_width scr) (im_height scr)))"
    unfolding block_unscramble_def Let_def grid_exactD[OF ex] sum.case
      sblocks_def[symmetric] lb rec loop
    using is_permutation_length[OF key] by simp
  with rec l some show ?thesis by blast
qed

lemma unscramble_pixel:
  fixes scr :: image and bs :: int and key :: "int list"
  defines "n \<equiv> spec_block_count (im_width scr) (im_height scr) bs"
  defines "c \<equiv> nat (spec_cols (im_width scr) bs)"
  assumes bs: "0 < bs" and key: "is_permutation n key" and ex: "grid_exact scr bs"
  shows "\<exists>out. block_unscramble scr key bs = Inr out \<and> wf_image out \<and>
           im_width out = im_width scr \<and> im_height out = im_height scr \<and>
           (\<forall>x y k. 0 \<le> x \<and> x < int (im_width scr) \<and> 0 \<le> y \<and> y < int (im_height scr) \<and>
              k < n \<and> key ! k = int (nat (y div bs) * c + nat (x div bs)) \<longrightarrow>
              pixel_at out x y =
                pixel_at scr (int (k mod c) * bs + x mod bs) (int (k div c) * bs + y mod bs))"
proof -
  let ?sblocks = "scrambled_blocks_of scr bs (spec_cols (im_width scr) bs) (spec_cols (im_height scr) bs)"
  from block_unscramble_result[where scr=scr and bs=bs and key=key, OF bs key[unfolded n_def] ex]
  obtain slots where l: "length slots = n"
    and some: "\<forall>k<n. slots ! nat (key ! k) = Some (?sblocks ! k)"
    and res: "block_unscramble scr key bs =
             Inr (paste_all (map (grid_paste (\<lambda>g. the (slots ! g)) bs c) [0..<n])
                    (image_new (im_width scr) (im_height scr)))"
    unfolding n_def c_def by blast
  let ?out = "paste_all (map (grid_paste (\<lambda>g. the (slots ! g)) bs c) [0..<n])
                    (image_new (im_width scr) (im_height scr))"
  have slot: "the (slots ! g) = crop scr (block_box (im_width scr) (im_height scr) bs (k div c, k mod c))"
    if "k < n" "key ! k = int g" for k g
  proof -
    have "slots ! g = Some (?sblocks ! k)" using some that by force
    moreover have "?sblocks ! k = crop scr (block_box (im_width scr) (im_height scr) bs (k div c, k mod c))"
      unfolding scrambled_blocks_of_def c_def by (rule nth_blocks[OF bs that(1)[unfolded n_def]])
    ultimately show ?thesis by simp
  qed
  have small: "\<forall>g<n. int (im_width (the (slots ! g))) \<le> bs \<and> int (im_height (the (slots ! g))) \<le> bs"
  proof (intro allI impI)
    fix g assume "g < n"
    from is_permutation_onto[OF key this] obtain k where k: "k < n" "key ! k = int g" by blast
    show "int (im_width (the (slots ! g))) \<le> bs \<and> int (im_height (the (slots ! g))) \<le> bs"
      unfolding slot[OF k] unfolding c_def using block_small[OF bs k(1)[unfolded n_def]] by simp
  qed
  have px: "pixel_at ?out x y =
                pixel_at scr (int (k mod c) * bs + x mod bs) (int (k div c) * bs + y mod bs)"
    if x: "0 \<le> x" "x < int (im_width scr)" and y: "0 \<le> y" "y < int (im_height scr)"
      and k: "k < n" "key ! k = int (nat (y div bs) * c + nat (x div bs))" for x y k
  proof -
    let ?g = "nat (y div bs) * c + nat (x div bs)"
    have xc: "nat (x div bs) < c" and g: "?g < n"
      unfolding c_def n_def using cell_of_pixel[OF bs x y] by simp_all
    have "pixel_at ?out x y = pixel_at (the (slots ! ?g)) (x mod bs) (y mod bs)"
      by (rule grid_paste_pixel_new[OF bs small x xc y g]) simp_all
    also have "\<dots> = pixel_at scr (int (k mod c) * bs + x mod bs) (int (k div c) * bs + y mod bs)"
      unfolding slot[OF k] using bs by (intro pixel_at_block) simp_all
    finally show ?thesis .
  qed
  show ?thesis
    by (intro exI[of _ ?out] conjI res allI impI) (simp_all add: px)
qed

section \<open>Round trip\<close>

lemma even_grid_cols:
  assumes "0 < bs" "bs dvd int w"
  shows "int (nat (spec_cols w bs)) * bs = int w"
proof -
  have "- int w div bs = - (int w div bs)" using assms by (simp add: dvd_neg_div)
  then have "spec_cols w bs = int w div bs" by (simp add: spec_cols_eq)
  moreover have "0 \<le> int w div bs" using assms(1) by (simp add: pos_imp_zdiv_nonneg_iff)
  ultimately show ?thesis using assms(2) by simp
qed

lemma offset_in_cell:
  fixes bs x :: int
  assumes "0 < bs"
  shows "(int j * bs + x mod bs) div bs = int j" "(int j * bs + x mod bs) mod bs = x mod bs"
    "nat ((int j * bs + x mod bs) div bs) = j" "0 \<le> int j * bs + x mod bs"
    "int j * bs + x mod bs < (int j + 1) * bs"
proof -
  have m: "0 \<le> x mod bs" "x mod bs < bs" using assms by simp_all
  have e: "(int j + 1) * bs = int j * bs + bs" by (simp add: algebra_simps)
  show d: "(int j * bs + x mod bs) div bs = int j"
    by (rule int_div_cell[OF assms]) (use m e in simp_all)
  then show "nat ((int j * bs + x mod bs) div bs) = j" by simp
  show "(int j * bs + x mod bs) mod bs = x mod bs" by simp
  have "0 \<le> int j * bs" using assms by simp
  then show "0 \<le> int j * bs + x mod bs" using m by simp
  show "int j * bs + x mod bs < (int j + 1) * bs" using m e by simp
qed

lemma round_trip_pixel:
  fixes img :: image and bs :: int and rs :: "int list \<Rightarrow> int list"
  defines "n \<equiv> spec_block_count (im_width img) (im_height img) bs"
  defines "c \<equiv> nat (spec_cols (im_width img) bs)"
  assumes bs: "0 < bs" and perm: "is_permutation n (rs (map int [0..<n]))"
    and ex: "grid_exact img bs"
    and res: "block_scramble img bs rs = Inr (scr, key)"
    and x: "0 \<le> x" "x < int (im_width img)" and y: "0 \<le> y" "y < int (im_height img)"
    and k: "k < n" "key ! k = int (nat (y div bs) * c + nat (x div bs))"
    and inb: "int (k mod c) * bs + x mod bs < int (im_width img)"
             "int (k div c) * bs + y mod bs < int (im_height img)"
  shows "pixel_at scr (int (k mod c) * bs + x mod bs) (int (k div c) * bs + y mod bs) = pixel_at img x y"
proof -
  let ?x' = "int (k mod c) * bs + x mod bs" and ?y' = "int (k div c) * bs + y mod bs"
  have xc: "nat (x div bs) < c"
    unfolding c_def using cell_of_pixel(1)[OF bs x y] .
  have kc: "nat (?y' div bs) * c + nat (?x' div bs) = k"
    unfolding offset_in_cell(3)[OF bs] by simp
  have xd: "0 \<le> x div bs" and yd: "0 \<le> y div bs" using x y bs by (simp_all add: pos_imp_zdiv_nonneg_iff)
  have "nat (key ! k) = nat (y div bs) * c + nat (x div bs)"
    unfolding k(2) by (rule nat_int)
  then have g: "nat (key ! k) mod c = nat (x div bs)" "nat (key ! k) div c = nat (y div bs)"
    using xc by simp_all
  have "pixel_at scr ?x' ?y' =
      pixel_at img (int (nat (key ! (nat (?y' div bs) * c + nat (?x' div bs))) mod c) * bs + ?x' mod bs)
                   (int (nat (key ! (nat (?y' div bs) * c + nat (?x' div bs))) div c) * bs + ?y' mod bs)"
    unfolding c_def
    by (rule scramble_pixel(5)[where img=img and bs=bs and rs=rs, OF bs perm[unfolded n_def] ex res
          offset_in_cell(4)[OF bs] inb(1)[unfolded c_def] offset_in_cell(4)[OF bs] inb(2)[unfolded c_def]])
  also have "\<dots> = pixel_at img (int (nat (x div bs)) * bs + x mod bs) (int (nat (y div bs)) * bs + y mod bs)"
    unfolding kc g offset_in_cell(2)[OF bs] ..
  also have "\<dots> = pixel_at img x y" using xd yd by simp
  finally show ?thesis .
qed

text \<open>
  Claim C10. For every well-formed image, every block size \<open>\<ge> 1\<close> that divides both
  the width and the height, and every permutation of the block indices that the shuffle
  returns: \<^verbatim>\<open>block_scramble\<close> succeeds, and \<^verbatim>\<open>block_unscramble\<close> of its image with its
  key and the same block size succeeds and returns the original image, pixel for pixel.
\<close>

theorem round_trip_even_grid:
  assumes "wf_image img" and "0 < block_size"
    and "block_size dvd int (im_width img)" and "block_size dvd int (im_height img)"
    and "is_permutation (spec_block_count (im_width img) (im_height img) block_size)
           (random_shuffle (map int [0..<spec_block_count (im_width img) (im_height img) block_size]))"
  shows "\<exists>scrambled_img permutation.
           block_scramble img block_size random_shuffle = Inr (scrambled_img, permutation) \<and>
           block_unscramble scrambled_img permutation block_size = Inr img"
proof -
  let ?n = "spec_block_count (im_width img) (im_height img) block_size"
  let ?c = "nat (spec_cols (im_width img) block_size)"
  let ?perm = "random_shuffle (map int [0..<?n])"
  note bs = assms(2) and perm = assms(5)
  have ex: "grid_exact img block_size" by (rule grid_exact_dvd[OF assms(2,3,4)])
  from block_scramble_result[where img=img and bs=block_size and rs=random_shuffle, OF bs perm ex]
  obtain scr where res: "block_scramble img block_size random_shuffle = Inr (scr, ?perm)" by blast
  note sp = scramble_pixel[where img=img and bs=block_size and rs=random_shuffle, OF bs perm ex res]
  have dims: "im_width scr = im_width img" "im_height scr = im_height img" by (rule sp(2), rule sp(3))
  have perm': "is_permutation (spec_block_count (im_width scr) (im_height scr) block_size) ?perm"
    unfolding dims by (rule perm)
  have ex': "grid_exact scr block_size" using ex grid_exact_same_size[OF dims] by simp
  from unscramble_pixel[where scr=scr and bs=block_size and key="?perm", OF bs perm' ex']
  obtain out where out: "block_unscramble scr ?perm block_size = Inr out" and wf: "wf_image out"
    and odims: "im_width out = im_width img" "im_height out = im_height img"
    and px: "\<And>x y k. 0 \<le> x \<Longrightarrow> x < int (im_width img) \<Longrightarrow> 0 \<le> y \<Longrightarrow> y < int (im_height img) \<Longrightarrow>
              k < ?n \<Longrightarrow> ?perm ! k = int (nat (y div block_size) * ?c + nat (x div block_size)) \<Longrightarrow>
              pixel_at out x y =
                pixel_at scr (int (k mod ?c) * block_size + x mod block_size)
                             (int (k div ?c) * block_size + y mod block_size)"
    unfolding dims by blast
  have "out = img"
  proof (rule image_eqI[OF wf assms(1) odims])
    fix x y assume "0 \<le> x" "x < int (im_width out)" "0 \<le> y" "y < int (im_height out)"
    then have x: "0 \<le> x" "x < int (im_width img)" and y: "0 \<le> y" "y < int (im_height img)"
      using odims by simp_all
    let ?g = "nat (y div block_size) * ?c + nat (x div block_size)"
    have "?g < ?n" using cell_of_pixel(3)[OF bs x y] .
    from is_permutation_onto[OF perm this] obtain k where k: "k < ?n" "?perm ! k = int ?g" by blast
    then have kn: "k < nat (spec_cols (im_height img) block_size) * ?c"
      by (simp add: spec_block_count_eq[OF bs])
    then have c: "0 < ?c" by (cases ?c) auto
    have "k mod ?c < ?c" using c by simp
    then have "int (k mod ?c) + 1 \<le> int ?c" by linarith
    then have "(int (k mod ?c) + 1) * block_size \<le> int ?c * block_size"
      by (rule mult_right_mono) (use bs in simp)
    then have inx: "int (k mod ?c) * block_size + x mod block_size < int (im_width img)"
      using offset_in_cell(5)[OF bs, of "k mod ?c" x] even_grid_cols[OF bs assms(3)] by linarith
    have "k div ?c < nat (spec_cols (im_height img) block_size)"
      using kn c by (simp add: less_mult_imp_div_less)
    then have "int (k div ?c) + 1 \<le> int (nat (spec_cols (im_height img) block_size))" by linarith
    then have "(int (k div ?c) + 1) * block_size \<le> int (nat (spec_cols (im_height img) block_size)) * block_size"
      by (rule mult_right_mono) (use bs in simp)
    then have iny: "int (k div ?c) * block_size + y mod block_size < int (im_height img)"
      using offset_in_cell(5)[OF bs, of "k div ?c" y] even_grid_cols[OF bs assms(4)] by linarith
    show "pixel_at out x y = pixel_at img x y"
      unfolding px[OF x y k]
      by (rule round_trip_pixel[where img=img and bs=block_size and rs=random_shuffle,
            OF bs perm ex res x y k inx iny])
  qed
  with res out show ?thesis by blast
qed

text \<open>Claim C10 at a 2 x 1 image with block size 1 and the drawn permutation \<open>[1, 0]\<close>.\<close>

theorem round_trip_even_grid_witness:
  "wf_image img2 \<and> (1::int) dvd int (im_width img2) \<and> (1::int) dvd int (im_height img2) \<and>
   (\<exists>scrambled_img permutation.
      block_scramble img2 1 (shuffle draw_first) = Inr (scrambled_img, permutation) \<and>
      block_unscramble scrambled_img permutation 1 = Inr img2)"
proof -
  have wf: "wf_image img2" by (simp add: wf_image_def img2_def im_width_def im_height_def)
  have bs: "(0::int) < 1" by simp
  have d: "(1::int) dvd int (im_width img2)" "(1::int) dvd int (im_height img2)" by simp_all
  from round_trip_even_grid[where img=img2 and block_size=1 and random_shuffle="shuffle draw_first",
      OF wf bs d is_permutation_shuffle] wf d
  show ?thesis by blast
qed

section \<open>Placement of the blocks\<close>

lemma scrambled_block_pixels:
  fixes img :: image and bs :: int and rs :: "int list \<Rightarrow> int list"
  defines "n \<equiv> spec_block_count (im_width img) (im_height img) bs"
  defines "c \<equiv> nat (spec_cols (im_width img) bs)"
  assumes bs: "0 < bs" and perm: "is_permutation n (rs (map int [0..<n]))"
    and ex: "grid_exact img bs"
    and res: "block_scramble img bs rs = Inr (scr, key)"
    and g: "g < n"
    and x: "0 \<le> x" "x < int (im_width (crop scr (block_box (im_width img) (im_height img) bs (g div c, g mod c))))"
    and y: "0 \<le> y" "y < int (im_height (crop scr (block_box (im_width img) (im_height img) bs (g div c, g mod c))))"
  shows "pixel_at (crop scr (block_box (im_width img) (im_height img) bs (g div c, g mod c))) x y =
         pixel_at (crop img (block_box (im_width img) (im_height img) bs
                     (nat (key ! g) div c, nat (key ! g) mod c))) x y"
proof -
  note sp = scramble_pixel[where img=img and bs=bs and rs=rs, OF bs perm[unfolded n_def] ex res]
  have dims: "im_width scr = im_width img" "im_height scr = im_height img"
    by (rule sp(2), rule sp(3))
  let ?q = "(g div c, g mod c)"
  obtain l u r b where box: "block_box (im_width img) (im_height img) bs ?q = (l, u, r, b)"
    by (cases "block_box (im_width img) (im_height img) bs ?q")
  note f = block_box_fits[OF bs box]
  note bb = block_box_bounds[OF bs refl refl div_mod_in_grid[OF bs g[unfolded n_def]] box[unfolded c_def]]
  have lu: "l = int (g mod c) * bs" "u = int (g div c) * bs"
    using box by (simp_all add: block_box_def Let_def)
  have x': "x < r - l" and y': "y < b - u"
    using x(2) y(2) f bb unfolding box by simp_all
  then have xb: "x < bs" "y < bs" using bb by simp_all
  have inb: "0 \<le> l + x" "l + x < int (im_width img)" "0 \<le> u + y" "u + y < int (im_height img)"
    using x(1) y(1) x' y' bb by simp_all
  have xm: "x mod bs = x" "y mod bs = y"
    using x(1) y(1) xb by simp_all
  have cell: "nat ((u + y) div bs) * c + nat ((l + x) div bs) = g"
    using offset_in_cell(3)[OF bs, of "g mod c" x] offset_in_cell(3)[OF bs, of "g div c" y]
    unfolding lu xm by simp
  have off: "(l + x) mod bs = x" "(u + y) mod bs = y"
    using offset_in_cell(2)[OF bs, of "g mod c" x] offset_in_cell(2)[OF bs, of "g div c" y]
    unfolding lu xm by simp_all
  have box': "block_box (im_width scr) (im_height scr) bs ?q = (l, u, r, b)"
    unfolding dims by (rule box)
  have "pixel_at (crop scr (block_box (im_width img) (im_height img) bs ?q)) x y
        = pixel_at scr (l + x) (u + y)"
    unfolding box using x(1) y(1) x' y' by (simp add: pixel_at_crop[OF f])
  also have "\<dots> = pixel_at img (int (nat (key ! g) mod c) * bs + x) (int (nat (key ! g) div c) * bs + y)"
    using sp(5)[OF inb] unfolding c_def[symmetric] cell off .
  also have "\<dots> = pixel_at (crop img (block_box (im_width img) (im_height img) bs
                     (nat (key ! g) div c, nat (key ! g) mod c))) x y"
    by (rule pixel_at_block[OF bs x(1) xb(1) y(1) xb(2), symmetric])
  finally show ?thesis .
qed

lemma even_block_size:
  fixes im :: image and bs :: int
  defines "c \<equiv> nat (spec_cols (im_width im) bs)"
  assumes bs: "0 < bs" and dw: "bs dvd int (im_width im)" and dh: "bs dvd int (im_height im)"
    and p: "p < spec_block_count (im_width im) (im_height im) bs"
  shows "im_width (crop a (block_box (im_width im) (im_height im) bs (p div c, p mod c))) = nat bs"
    and "im_height (crop a (block_box (im_width im) (im_height im) bs (p div c, p mod c))) = nat bs"
proof -
  let ?r = "nat (spec_cols (im_height im) bs)"
  have pn: "p < ?r * c" using p unfolding c_def by (simp add: spec_block_count_eq[OF bs])
  then have c: "0 < c" by (cases c) auto
  have "p mod c < c" using c by simp
  then have "int (p mod c) + 1 \<le> int c" by linarith
  then have "(int (p mod c) + 1) * bs \<le> int c * bs"
    by (rule mult_right_mono) (use bs in simp)
  then have rw: "(int (p mod c) + 1) * bs \<le> int (im_width im)"
    using even_grid_cols[OF bs dw] unfolding c_def by simp
  have "p div c < ?r" using pn c by (simp add: less_mult_imp_div_less)
  then have "int (p div c) + 1 \<le> int ?r" by linarith
  then have "(int (p div c) + 1) * bs \<le> int ?r * bs"
    by (rule mult_right_mono) (use bs in simp)
  then have rh: "(int (p div c) + 1) * bs \<le> int (im_height im)"
    using even_grid_cols[OF bs dh] by simp
  have e: "(int (p mod c) + 1) * bs = int (p mod c) * bs + bs"
    "(int (p div c) + 1) * bs = int (p div c) * bs + bs"
    by (simp_all add: algebra_simps)
  have box: "block_box (im_width im) (im_height im) bs (p div c, p mod c) =
      (int (p mod c) * bs, int (p div c) * bs, int (p mod c) * bs + bs, int (p div c) * bs + bs)"
    using rw rh unfolding e by (simp add: block_box_def Let_def e min_def)
  note f = block_box_fits[OF bs box]
  show "im_width (crop a (block_box (im_width im) (im_height im) bs (p div c, p mod c))) = nat bs"
    and "im_height (crop a (block_box (im_width im) (im_height im) bs (p div c, p mod c))) = nat bs"
    unfolding box using f by simp_all
qed

text \<open>
  Claim C2 at the 3 x 1 image with block size 2 and the drawn permutation \<open>[1, 0]\<close>. The
  scrambled image does not hold the content of the original block \<open>permutation[g]\<close> at
  grid index \<open>g\<close>, for neither \<open>g\<close>: at index 0 it holds the one pixel of original block 1
  and a black pixel, and at index 1 only the first of the two pixels of original block 0.
\<close>

theorem scramble_misplaces_ragged_blocks:
  "ceil_div (int (im_width img3)) 2 = Inr 2 \<and> ceil_div (int (im_height img3)) 2 = Inr 1 \<and>
   block_scramble img3 2 (shuffle draw_first) = Inr (scrambled3, [1, 0]) \<and>
   original_blocks_of img3 2 2 1 ! nat ([1, 0] ! 0) =
     \<lparr>xsize = 1, ysize = 1, im_rows = [[(3, 3, 3)]]\<rparr> \<and>
   scrambled_blocks_of scrambled3 2 2 1 ! 0 =
     \<lparr>xsize = 2, ysize = 1, im_rows = [[(3, 3, 3), (0, 0, 0)]]\<rparr> \<and>
   original_blocks_of img3 2 2 1 ! nat ([1, 0] ! 1) =
     \<lparr>xsize = 2, ysize = 1, im_rows = [[(1, 1, 1), (2, 2, 2)]]\<rparr> \<and>
   scrambled_blocks_of scrambled3 2 2 1 ! 1 =
     \<lparr>xsize = 1, ysize = 1, im_rows = [[(1, 1, 1)]]\<rparr>"
  by code_simp

text \<open>
  Where the blocks are placed as a whole. For a block size \<open>> 0\<close> and below \<open>2^1075\<close> and
  a shuffle that returns a permutation, let \<^verbatim>\<open>block_scramble\<close> save \<open>(scrambled_img, permutation)\<close>.
  When the block size divides the width and the height, the block of the scrambled image
  at every grid index \<open>g\<close> is the original block \<open>permutation[g]\<close>. In every case, each
  pixel of the block of the scrambled image at \<open>g\<close> is the pixel of the original block
  \<open>permutation[g]\<close> at the same offset where that block is wide and high enough, and
  black where it is not; the reconstruction loop of \<^verbatim>\<open>block_unscramble\<close> completes, and
  for every \<open>k\<close> it leaves the scrambled block \<open>k\<close> at index \<open>permutation[k]\<close>.
\<close>

theorem scramble_places_blocks:
  fixes img :: image and block_size :: int and random_shuffle :: "int list \<Rightarrow> int list"
  defines "n \<equiv> spec_block_count (im_width img) (im_height img) block_size"
  defines "cols \<equiv> spec_cols (im_width img) block_size"
  defines "rows \<equiv> spec_rows (im_height img) block_size"
  assumes bs: "0 < block_size" and bound: "block_size < underflow_bound"
    and perm: "is_permutation n (random_shuffle (map int [0..<n]))"
    and res: "block_scramble img block_size random_shuffle = Inr (scrambled_img, permutation)"
  shows "(block_size dvd int (im_width img) \<and> block_size dvd int (im_height img) \<longrightarrow>
            (\<forall>g<n. scrambled_blocks_of scrambled_img block_size cols rows ! g =
                    original_blocks_of img block_size cols rows ! nat (permutation ! g))) \<and>
         (\<forall>g<n. \<forall>x y.
            0 \<le> x \<and> x < int (im_width (scrambled_blocks_of scrambled_img block_size cols rows ! g)) \<and>
            0 \<le> y \<and> y < int (im_height (scrambled_blocks_of scrambled_img block_size cols rows ! g)) \<longrightarrow>
            pixel_at (scrambled_blocks_of scrambled_img block_size cols rows ! g) x y =
              (if x < int (im_width (original_blocks_of img block_size cols rows ! nat (permutation ! g))) \<and>
                  y < int (im_height (original_blocks_of img block_size cols rows ! nat (permutation ! g)))
               then pixel_at (original_blocks_of img block_size cols rows ! nat (permutation ! g)) x y
               else black)) \<and>
         (\<exists>slots. reconstruct (scrambled_blocks_of scrambled_img block_size cols rows) permutation = Inr slots \<and>
            length slots = n \<and>
            (\<forall>k<n. slots ! nat (permutation ! k) =
                      Some (scrambled_blocks_of scrambled_img block_size cols rows ! k)))"
proof (intro conjI allI impI)
  let ?c = "nat (spec_cols (im_width img) block_size)"
  have ex: "grid_exact img block_size" by (rule grid_exact_bound[OF bs bound])
  note sp = scramble_pixel[where img=img and bs=block_size and rs=random_shuffle,
      OF bs perm[unfolded n_def] ex res]
  have key: "permutation = random_shuffle (map int [0..<n])" unfolding n_def by (rule sp(1))
  have dims: "im_width scrambled_img = im_width img" "im_height scrambled_img = im_height img"
    by (rule sp(2), rule sp(3))
  have rows: "rows = spec_cols (im_height img) block_size"
    unfolding rows_def by (rule spec_rows_as_cols)
  {
    fix g
    assume even: "block_size dvd int (im_width img) \<and> block_size dvd int (im_height img)"
      and g: "g < n"
    let ?p = "nat (permutation ! g)"
    let ?S = "crop scrambled_img (block_box (im_width img) (im_height img) block_size (g div ?c, g mod ?c))"
    let ?O = "crop img (block_box (im_width img) (im_height img) block_size (?p div ?c, ?p mod ?c))"
    have p: "?p < spec_block_count (im_width img) (im_height img) block_size"
      using is_permutation_range[OF perm g] unfolding key n_def by simp
    have sb: "scrambled_blocks_of scrambled_img block_size cols rows ! g = ?S"
      unfolding scrambled_blocks_of_def cols_def rows dims
      by (rule nth_blocks[OF bs g[unfolded n_def]])
    have ob: "original_blocks_of img block_size cols rows ! ?p = ?O"
      unfolding original_blocks_of_def cols_def rows by (rule nth_blocks[OF bs p])
    have sS: "im_width ?S = nat block_size" "im_height ?S = nat block_size"
      using even by (simp_all add: even_block_size[OF bs _ _ g[unfolded n_def]])
    have sO: "im_width ?O = nat block_size" "im_height ?O = nat block_size"
      using even by (simp_all add: even_block_size[OF bs _ _ p])
    have "?S = ?O"
    proof (rule image_eqI)
      show "wf_image ?S" "wf_image ?O" by (rule wf_block[OF bs])+
      show "im_width ?S = im_width ?O" "im_height ?S = im_height ?O" using sS sO by simp_all
      fix x y assume "0 \<le> x" "x < int (im_width ?S)" "0 \<le> y" "y < int (im_height ?S)"
      then show "pixel_at ?S x y = pixel_at ?O x y"
        by (rule scrambled_block_pixels[where img=img and bs=block_size and rs=random_shuffle,
              OF bs perm[unfolded n_def] ex res g[unfolded n_def]])
    qed
    then show "scrambled_blocks_of scrambled_img block_size cols rows ! g =
            original_blocks_of img block_size cols rows ! nat (permutation ! g)"
      unfolding sb ob .
  }
  {
    fix g x y
    assume g: "g < n"
      and xy: "0 \<le> x \<and> x < int (im_width (scrambled_blocks_of scrambled_img block_size cols rows ! g)) \<and>
            0 \<le> y \<and> y < int (im_height (scrambled_blocks_of scrambled_img block_size cols rows ! g))"
    let ?p = "nat (permutation ! g)"
    let ?S = "crop scrambled_img (block_box (im_width img) (im_height img) block_size (g div ?c, g mod ?c))"
    let ?O = "crop img (block_box (im_width img) (im_height img) block_size (?p div ?c, ?p mod ?c))"
    have p: "?p < spec_block_count (im_width img) (im_height img) block_size"
      using is_permutation_range[OF perm g] unfolding key n_def by simp
    have sb: "scrambled_blocks_of scrambled_img block_size cols rows ! g = ?S"
      unfolding scrambled_blocks_of_def cols_def rows dims
      by (rule nth_blocks[OF bs g[unfolded n_def]])
    have ob: "original_blocks_of img block_size cols rows ! ?p = ?O"
      unfolding original_blocks_of_def cols_def rows by (rule nth_blocks[OF bs p])
    have xy': "0 \<le> x" "x < int (im_width ?S)" "0 \<le> y" "y < int (im_height ?S)"
      using xy unfolding sb by simp_all
    have "pixel_at ?S x y = pixel_at ?O x y"
      using xy' by (rule scrambled_block_pixels[where img=img and bs=block_size and rs=random_shuffle,
              OF bs perm[unfolded n_def] ex res g[unfolded n_def]])
    also have "\<dots> = (if x < int (im_width ?O) \<and> y < int (im_height ?O) then pixel_at ?O x y else black)"
      using xy'(1,3) by (simp add: pixel_at_def)
    finally show "pixel_at (scrambled_blocks_of scrambled_img block_size cols rows ! g) x y =
              (if x < int (im_width (original_blocks_of img block_size cols rows ! nat (permutation ! g))) \<and>
                  y < int (im_height (original_blocks_of img block_size cols rows ! nat (permutation ! g)))
               then pixel_at (original_blocks_of img block_size cols rows ! nat (permutation ! g)) x y
               else black)"
      unfolding sb ob .
  }
  have lb: "length (scrambled_blocks_of scrambled_img block_size cols rows) = n"
    unfolding cols_def rows n_def dims[symmetric] by (rule length_scrambled_blocks_of[OF bs])
  show "\<exists>slots. reconstruct (scrambled_blocks_of scrambled_img block_size cols rows) permutation = Inr slots \<and>
            length slots = n \<and>
            (\<forall>k<n. slots ! nat (permutation ! k) =
                      Some (scrambled_blocks_of scrambled_img block_size cols rows ! k))"
    by (rule reconstruct_permutation[OF lb perm[folded key]])
qed

section \<open>Sample runs\<close>

lemma scramble_img3: "block_scramble img3 2 (shuffle draw_first) = Inr (scrambled3, [1, 0])"
  by code_simp

lemma spec_grid_3_1_2: "spec_cols 3 2 = 2" "spec_rows 1 2 = 1" "spec_block_count 3 1 2 = 2"
  by (simp_all add: spec_block_count_def spec_cols_eq spec_rows_eq)

lemma img3_size: "im_width img3 = 3" "im_height img3 = 1"
  by (simp_all add: img3_def im_width_def im_height_def)

lemma shuffle_two: "shuffle draw_first (map int [0..<2]) = [1, 0]"
  by code_simp

lemma small_block_size: "(0::int) < 2" "(2::int) < underflow_bound"
  by (simp_all add: underflow_bound_def)

section \<open>Shapes are never checked\<close>

lemma grid_paste_pixel_rect:
  fixes im :: image and bs :: int
  defines "n \<equiv> spec_block_count (im_width im) (im_height im) bs"
  defines "c \<equiv> nat (spec_cols (im_width im) bs)"
  assumes bs: "0 < bs"
    and small: "\<forall>g<n. int (im_width (blk g)) \<le> bs \<and> int (im_height (blk g)) \<le> bs"
    and g: "g < n"
    and inb: "in_box (block_box (im_width im) (im_height im) bs (g div c, g mod c)) x y"
  shows "pixel_at (paste_all (map (grid_paste blk bs c) [0..<n])
            (image_new (im_width im) (im_height im))) x y =
         (if covers (blk g, int (g mod c) * bs, int (g div c) * bs) x y
          then pixel_at (blk g) (x - int (g mod c) * bs) (y - int (g div c) * bs)
          else black)"
proof -
  obtain l u r b where box: "block_box (im_width im) (im_height im) bs (g div c, g mod c) = (l, u, r, b)"
    by (cases "block_box (im_width im) (im_height im) bs (g div c, g mod c)")
  note bb = block_box_bounds[OF bs refl refl div_mod_in_grid[OF bs g[unfolded n_def]] box[unfolded c_def]]
  have x: "0 \<le> x" "x < int (im_width im)" and y: "0 \<le> y" "y < int (im_height im)"
    using inb bb unfolding box in_box_def by simp_all
  have cell: "g div c = nat (y div bs)" "g mod c = nat (x div bs)"
    using in_box_cell[OF bs inb] by simp_all
  have gn: "g < nat (spec_cols (im_height im) bs) * c"
    using g unfolding n_def c_def by (simp add: spec_block_count_eq[OF bs])
  then have c: "0 < c" by (cases c) auto
  have xc: "nat (x div bs) < c" using c cell(2)[symmetric] by simp
  have idx: "nat (y div bs) * c + nat (x div bs) = g"
    using cell by (metis div_mult_mod_eq)
  have g': "nat (y div bs) * c + nat (x div bs) < n" unfolding idx by (rule g)
  have xd: "0 \<le> x div bs" and yd: "0 \<le> y div bs"
    using x y bs by (simp_all add: pos_imp_zdiv_nonneg_iff)
  have off: "x - int (g mod c) * bs = x mod bs" "y - int (g div c) * bs = y mod bs"
    unfolding cell using xd yd by (simp_all add: minus_div_mult_eq_mod)
  have cov: "covers (blk g, int (g mod c) * bs, int (g div c) * bs) x y \<longleftrightarrow>
      x mod bs < int (im_width (blk g)) \<and> y mod bs < int (im_height (blk g))"
    using covers_grid_paste_own[OF bs x(1) xc y(1), of blk] unfolding idx grid_paste_def .
  have sz: "int (im_width (image_new (im_width im) (im_height im))) = int (im_width im)"
    "int (im_height (image_new (im_width im) (im_height im))) = int (im_height im)"
    by simp_all
  have "pixel_at (paste_all (map (grid_paste blk bs c) [0..<n])
            (image_new (im_width im) (im_height im))) x y =
     (if x mod bs < int (im_width (blk g)) \<and> y mod bs < int (im_height (blk g))
      then pixel_at (blk g) (x mod bs) (y mod bs)
      else pixel_at (image_new (im_width im) (im_height im)) x y)"
    using grid_paste_pixel[OF bs small x(1) x(2)[folded sz(1)] xc y(1) y(2)[folded sz(2)] g']
    unfolding idx .
  then show ?thesis unfolding cov off by simp
qed

text \<open>
  Claim C8 as stated fails: with the key \<open>[1, 0]\<close> the block written at grid position 0
  is original block 1, which is 1 pixel wide, while the rectangle of position 0 is 2
  pixels wide; the run succeeds all the same and leaves the second pixel of that
  rectangle black.
\<close>

theorem shape_mismatch_not_rejected:
  "permutation_of draw_first 2 = [1, 0] \<and>
   original_blocks_of img3 2 2 1 ! 1 = crop img3 (2, 0, 3, 1) \<and>
   im_width (crop img3 (2, 0, 3, 1)) = 1 \<and>
   block_box 3 1 2 (0, 0) = (0, 0, 2, 1) \<and>
   block_scramble img3 2 (shuffle draw_first) = Inr (scrambled3, [1, 0]) \<and>
   pixel_at scrambled3 1 0 = black"
  by code_simp

text \<open>
  Claim C8, amended. Compositing has no shape check and no failure of that kind. For a
  block size \<open>> 0\<close> and below \<open>2^1075\<close>, a shuffle that returns a permutation and a key that
  is one, the paste loops of \<^verbatim>\<open>block_scramble\<close> and of \<^verbatim>\<open>block_unscramble\<close> run to the end
  and the image is saved, whatever the shapes. In the saved image, each pixel of the
  rectangle of a grid index is the pixel of the block pasted there, counted from the
  rectangle's upper left corner, where the block with its own size covers it (what
  reaches beyond the rectangle is dropped), and black where it does not. The block
  pasted at \<open>g\<close> by \<^verbatim>\<open>block_scramble\<close> is the original block \<open>permutation[g]\<close>; the block
  pasted at \<open>key[k]\<close> by \<^verbatim>\<open>block_unscramble\<close> is block \<open>k\<close> of its input.
\<close>

theorem compositing_clips_without_shape_check:
  fixes img :: image and block_size :: int and random_shuffle :: "int list \<Rightarrow> int list"
    and key :: "int list"
  defines "n \<equiv> spec_block_count (im_width img) (im_height img) block_size"
  defines "c \<equiv> nat (spec_cols (im_width img) block_size)"
  defines "original_blocks \<equiv> original_blocks_of img block_size
             (spec_cols (im_width img) block_size) (spec_rows (im_height img) block_size)"
  defines "scrambled_blocks \<equiv> scrambled_blocks_of img block_size
             (spec_cols (im_width img) block_size) (spec_rows (im_height img) block_size)"
  assumes bs: "0 < block_size" and bound: "block_size < underflow_bound"
    and perm: "is_permutation n (random_shuffle (map int [0..<n]))"
    and key: "is_permutation n key"
  shows "(\<exists>scrambled_img permutation.
            block_scramble img block_size random_shuffle = Inr (scrambled_img, permutation) \<and>
            (\<forall>g<n. \<forall>x y.
               in_box (block_box (im_width img) (im_height img) block_size (g div c, g mod c)) x y \<longrightarrow>
               pixel_at scrambled_img x y =
                 (if covers (original_blocks ! nat (permutation ! g),
                             int (g mod c) * block_size, int (g div c) * block_size) x y
                  then pixel_at (original_blocks ! nat (permutation ! g))
                         (x - int (g mod c) * block_size) (y - int (g div c) * block_size)
                  else black))) \<and>
         (\<exists>unscrambled_img.
            block_unscramble img key block_size = Inr unscrambled_img \<and>
            (\<forall>k<n. \<forall>x y.
               in_box (block_box (im_width img) (im_height img) block_size
                         (nat (key ! k) div c, nat (key ! k) mod c)) x y \<longrightarrow>
               pixel_at unscrambled_img x y =
                 (if covers (scrambled_blocks ! k,
                             int (nat (key ! k) mod c) * block_size,
                             int (nat (key ! k) div c) * block_size) x y
                  then pixel_at (scrambled_blocks ! k)
                         (x - int (nat (key ! k) mod c) * block_size)
                         (y - int (nat (key ! k) div c) * block_size)
                  else black)))"
proof (intro conjI)
  have ex: "grid_exact img block_size" by (rule grid_exact_bound[OF bs bound])
  have ob: "original_blocks = original_blocks_of img block_size
             (spec_cols (im_width img) block_size) (spec_cols (im_height img) block_size)"
    unfolding original_blocks_def spec_rows_as_cols ..
  have sb: "scrambled_blocks = scrambled_blocks_of img block_size
             (spec_cols (im_width img) block_size) (spec_cols (im_height img) block_size)"
    unfolding scrambled_blocks_def spec_rows_as_cols ..
  let ?perm = "random_shuffle (map int [0..<n])"
  let ?blk = "\<lambda>g. original_blocks ! nat (?perm ! g)"
  let ?new = "image_new (im_width img) (im_height img)"
  have res: "block_scramble img block_size random_shuffle =
      Inr (paste_all (map (grid_paste ?blk block_size c) [0..<n]) ?new, ?perm)"
    unfolding ob n_def c_def
    by (rule block_scramble_result[where img=img and bs=block_size and rs=random_shuffle,
          OF bs perm[unfolded n_def] ex])
  have small: "\<forall>g<n. int (im_width (?blk g)) \<le> block_size \<and> int (im_height (?blk g)) \<le> block_size"
  proof (intro allI impI)
    fix g assume g: "g < n"
    have p: "nat (?perm ! g) < spec_block_count (im_width img) (im_height img) block_size"
      using is_permutation_range[OF perm g] unfolding n_def by simp
    have b: "?blk g = crop img (block_box (im_width img) (im_height img) block_size
                (nat (?perm ! g) div c, nat (?perm ! g) mod c))"
      unfolding ob original_blocks_of_def c_def by (rule nth_blocks[OF bs p])
    show "int (im_width (?blk g)) \<le> block_size \<and> int (im_height (?blk g)) \<le> block_size"
      unfolding b unfolding c_def using block_small[OF bs p] by simp
  qed
  show "\<exists>scrambled_img permutation.
            block_scramble img block_size random_shuffle = Inr (scrambled_img, permutation) \<and>
            (\<forall>g<n. \<forall>x y.
               in_box (block_box (im_width img) (im_height img) block_size (g div c, g mod c)) x y \<longrightarrow>
               pixel_at scrambled_img x y =
                 (if covers (original_blocks ! nat (permutation ! g),
                             int (g mod c) * block_size, int (g div c) * block_size) x y
                  then pixel_at (original_blocks ! nat (permutation ! g))
                         (x - int (g mod c) * block_size) (y - int (g div c) * block_size)
                  else black))"
  proof (intro exI conjI allI impI)
    show "block_scramble img block_size random_shuffle =
      Inr (paste_all (map (grid_paste ?blk block_size c) [0..<n]) ?new, ?perm)" by (rule res)
    fix g x y
    assume g: "g < n"
      and inb: "in_box (block_box (im_width img) (im_height img) block_size (g div c, g mod c)) x y"
    show "pixel_at (paste_all (map (grid_paste ?blk block_size c) [0..<n]) ?new) x y =
        (if covers (?blk g, int (g mod c) * block_size, int (g div c) * block_size) x y
         then pixel_at (?blk g) (x - int (g mod c) * block_size) (y - int (g div c) * block_size)
         else black)"
      unfolding n_def c_def
      by (rule grid_paste_pixel_rect[OF bs small[unfolded n_def] g[unfolded n_def] inb[unfolded c_def]])
  qed
  from block_unscramble_result[where scr=img and bs=block_size and key=key, OF bs key[unfolded n_def] ex]
  obtain slots where l: "length slots = n"
    and some: "\<forall>k<n. slots ! nat (key ! k) = Some (scrambled_blocks ! k)"
    and ures: "block_unscramble img key block_size =
             Inr (paste_all (map (grid_paste (\<lambda>g. the (slots ! g)) block_size c) [0..<n]) ?new)"
    unfolding sb n_def c_def by blast
  have slot: "the (slots ! nat (key ! k)) = scrambled_blocks ! k" if "k < n" for k
    using some that by simp
  have small': "\<forall>g<n. int (im_width (the (slots ! g))) \<le> block_size \<and>
                      int (im_height (the (slots ! g))) \<le> block_size"
  proof (intro allI impI)
    fix g assume "g < n"
    from is_permutation_onto[OF key this] obtain k where k: "k < n" "key ! k = int g" by blast
    have g: "g = nat (key ! k)" using k(2) by simp
    have b: "scrambled_blocks ! k = crop img (block_box (im_width img) (im_height img) block_size
                (k div c, k mod c))"
      unfolding sb scrambled_blocks_of_def c_def by (rule nth_blocks[OF bs k(1)[unfolded n_def]])
    show "int (im_width (the (slots ! g))) \<le> block_size \<and>
          int (im_height (the (slots ! g))) \<le> block_size"
      unfolding g slot[OF k(1)] b unfolding c_def using block_small[OF bs k(1)[unfolded n_def]] by simp
  qed
  show "\<exists>unscrambled_img.
            block_unscramble img key block_size = Inr unscrambled_img \<and>
            (\<forall>k<n. \<forall>x y.
               in_box (block_box (im_width img) (im_height img) block_size
                         (nat (key ! k) div c, nat (key ! k) mod c)) x y \<longrightarrow>
               pixel_at unscrambled_img x y =
                 (if covers (scrambled_blocks ! k,
                             int (nat (key ! k) mod c) * block_size,
                             int (nat (key ! k) div c) * block_size) x y
                  then pixel_at (scrambled_blocks ! k)
                         (x - int (nat (key ! k) mod c) * block_size)
                         (y - int (nat (key ! k) div c) * block_size)
                  else black))"
  proof (intro exI conjI allI impI)
    show "block_unscramble img key block_size =
             Inr (paste_all (map (grid_paste (\<lambda>g. the (slots ! g)) block_size c) [0..<n]) ?new)"
      by (rule ures)
    fix k x y
    assume k: "k < n"
      and inb: "in_box (block_box (im_width img) (im_height img) block_size
                         (nat (key ! k) div c, nat (key ! k) mod c)) x y"
    have g: "nat (key ! k) < n" using is_permutation_range[OF key k] by simp
    show "pixel_at (paste_all (map (grid_paste (\<lambda>g. the (slots ! g)) block_size c) [0..<n]) ?new) x y =
        (if covers (scrambled_blocks ! k, int (nat (key ! k) mod c) * block_size,
                    int (nat (key ! k) div c) * block_size) x y
         then pixel_at (scrambled_blocks ! k) (x - int (nat (key ! k) mod c) * block_size)
                (y - int (nat (key ! k) div c) * block_size)
         else black)"
      using grid_paste_pixel_rect[where im=img and bs=block_size and blk="\<lambda>g. the (slots ! g)",
          OF bs small'[unfolded n_def] g[unfolded n_def] inb[unfolded c_def]]
      unfolding n_def[symmetric] c_def[symmetric] slot[OF k] .
  qed
qed

text \<open>
  Claim C8, amended, at the 3 x 1 image with block size 2 and the key \<open>[1, 0]\<close>. The
  rectangle of grid index 0 is 2 pixels wide and takes original block 1, which is 1 pixel
  wide: its first pixel is the block's, its second stays black. Unscrambling the same
  image with the same key puts the first pixel of block 0 at the corner of rectangle 1.
\<close>

theorem compositing_clips_without_shape_check_witness:
  "(0::int) < 2 \<and> (2::int) < underflow_bound \<and> is_permutation 2 [1, 0] \<and>
   block_scramble img3 2 (shuffle draw_first) = Inr (scrambled3, [1, 0]) \<and>
   block_box 3 1 2 (0, 0) = (0, 0, 2, 1) \<and>
   im_width (original_blocks_of img3 2 2 1 ! 1) = 1 \<and>
   pixel_at scrambled3 0 0 = pixel_at (original_blocks_of img3 2 2 1 ! 1) 0 0 \<and>
   pixel_at scrambled3 1 0 = black \<and>
   (\<exists>unscrambled_img. block_unscramble img3 [1, 0] 2 = Inr unscrambled_img \<and>
      pixel_at unscrambled_img 2 0 = pixel_at (scrambled_blocks_of img3 2 2 1 ! 0) 0 0)"
proof -
  let ?n = "spec_block_count (im_width img3) (im_height img3) 2"
  let ?c = "nat (spec_cols (im_width img3) 2)"
  let ?ob = "original_blocks_of img3 2 (spec_cols (im_width img3) 2) (spec_rows (im_height img3) 2)"
  let ?sb = "scrambled_blocks_of img3 2 (spec_cols (im_width img3) 2) (spec_rows (im_height img3) 2)"
  have kp: "is_permutation 2 [1, 0]"
    using is_permutation_shuffle[of 2 draw_first] unfolding shuffle_two .
  have key: "is_permutation ?n [1, 0]" unfolding img3_size spec_grid_3_1_2 by (rule kp)
  have g0: "0 < ?n" unfolding img3_size spec_grid_3_1_2 by simp
  have in0: "in_box (block_box (im_width img3) (im_height img3) 2 (0 div ?c, 0 mod ?c)) 0 0"
    and in1: "in_box (block_box (im_width img3) (im_height img3) 2 (0 div ?c, 0 mod ?c)) 1 0"
    and in2: "in_box (block_box (im_width img3) (im_height img3) 2
                (nat ([1, 0] ! 0) div ?c, nat ([1, 0] ! 0) mod ?c)) 2 0"
    unfolding img3_size spec_grid_3_1_2 by code_simp+
  have c0: "covers (?ob ! nat ([1, 0] ! 0), int (0 mod ?c) * 2, int (0 div ?c) * 2) 0 0"
    and c1: "\<not> covers (?ob ! nat ([1, 0] ! 0), int (0 mod ?c) * 2, int (0 div ?c) * 2) 1 0"
    and c2: "covers (?sb ! 0, int (nat ([1, 0] ! 0) mod ?c) * 2, int (nat ([1, 0] ! 0) div ?c) * 2) 2 0"
    unfolding img3_size spec_grid_3_1_2 by code_simp+
  have e: "?ob ! nat ([1, 0] ! 0) = original_blocks_of img3 2 2 1 ! 1"
    "?sb = scrambled_blocks_of img3 2 2 1"
    "0 - int (0 mod ?c) * 2 = 0" "1 - int (0 mod ?c) * 2 = 1" "0 - int (0 div ?c) * 2 = 0"
    "2 - int (nat ([1, 0] ! 0) mod ?c) * 2 = 0" "0 - int (nat ([1, 0] ! 0) div ?c) * 2 = 0"
    unfolding img3_size spec_grid_3_1_2 by simp_all
  note t = compositing_clips_without_shape_check[where img=img3 and block_size=2 and
      random_shuffle="shuffle draw_first" and key="[1, 0]",
      OF small_block_size is_permutation_shuffle key]
  from t[THEN conjunct1] obtain s p where
    r: "block_scramble img3 2 (shuffle draw_first) = Inr (s, p)"
    and a: "\<forall>g<?n. \<forall>x y.
       in_box (block_box (im_width img3) (im_height img3) 2 (g div ?c, g mod ?c)) x y \<longrightarrow>
       pixel_at s x y =
         (if covers (?ob ! nat (p ! g), int (g mod ?c) * 2, int (g div ?c) * 2) x y
          then pixel_at (?ob ! nat (p ! g)) (x - int (g mod ?c) * 2) (y - int (g div ?c) * 2)
          else black)"
    by blast
  from r have sp: "s = scrambled3" "p = [1, 0]" unfolding scramble_img3 by simp_all
  have p0: "pixel_at scrambled3 0 0 = pixel_at (original_blocks_of img3 2 2 1 ! 1) 0 0"
    using a[unfolded sp, rule_format, OF g0 in0] c0 unfolding e by simp
  have p1: "pixel_at scrambled3 1 0 = black"
    using a[unfolded sp, rule_format, OF g0 in1] c1 by simp
  from t[THEN conjunct2] obtain v where
    ru: "block_unscramble img3 [1, 0] 2 = Inr v"
    and b: "\<forall>k<?n. \<forall>x y.
       in_box (block_box (im_width img3) (im_height img3) 2
                 (nat ([1, 0] ! k) div ?c, nat ([1, 0] ! k) mod ?c)) x y \<longrightarrow>
       pixel_at v x y =
         (if covers (?sb ! k, int (nat ([1, 0] ! k) mod ?c) * 2, int (nat ([1, 0] ! k) div ?c) * 2) x y
          then pixel_at (?sb ! k) (x - int (nat ([1, 0] ! k) mod ?c) * 2)
                 (y - int (nat ([1, 0] ! k) div ?c) * 2)
          else black)"
    by blast
  have p2: "pixel_at v 2 0 = pixel_at (scrambled_blocks_of img3 2 2 1 ! 0) 0 0"
    using b[rule_format, OF g0 in2] c2 unfolding e by simp
  have f: "block_box 3 1 2 (0, 0) = (0, 0, 2, 1)"
    "im_width (original_blocks_of img3 2 2 1 ! 1) = 1"
    by code_simp+
  from small_block_size kp scramble_img3 f p0 p1 ru p2 show ?thesis by blast
qed

section \<open>Keys with duplicates\<close>

lemma missing_index:
  assumes "length key = n" "\<not> distinct key"
  shows "\<exists>p<n. \<forall>k<n. key ! k \<noteq> int p"
proof (rule ccontr)
  assume "\<not> (\<exists>p<n. \<forall>k<n. key ! k \<noteq> int p)"
  then have "\<forall>p<n. \<exists>k<n. key ! k = int p" by blast
  then have "int ` {0..<n} \<subseteq> set key" using assms(1) by (auto simp: in_set_conv_nth)
  then have "card (int ` {0..<n}) \<le> card (set key)" by (intro card_mono) simp_all
  moreover have "card (int ` {0..<n}) = n" by (simp add: card_image)
  moreover have "card (set key) \<le> length key" by (rule card_length)
  ultimately have "card (set key) = length key" using assms(1) by simp
  then have "distinct key" by (rule card_distinct)
  with assms(2) show False by simp
qed

lemma two_blocks_bound:
  assumes bs: "0 < bs" and two: "2 \<le> spec_block_count (im_width im) (im_height im) bs"
  shows "bs < underflow_bound"
proof (rule ccontr)
  assume "\<not> bs < underflow_bound"
  then have big: "underflow_bound \<le> bs" by simp
  have m: "int max_size \<le> underflow_bound"
    unfolding max_size_def underflow_bound_def by (simp add: power_increasing)
  have w: "int (im_width im) \<le> bs" and h: "int (im_height im) \<le> bs"
    using im_size_bound[of im] big m by linarith+
  have "spec_cols (im_width im) bs \<le> 1" "spec_cols (im_height im) bs \<le> 1"
    using spec_cols_le_one[OF bs w] spec_cols_le_one[OF bs h] .
  moreover have "0 \<le> spec_cols (im_width im) bs" "0 \<le> spec_cols (im_height im) bs"
    using bs by (simp_all add: spec_cols_nonneg)
  ultimately have "nat (spec_cols (im_height im) bs) \<le> 1" "nat (spec_cols (im_width im) bs) \<le> 1"
    by simp_all
  then have "nat (spec_cols (im_height im) bs) * nat (spec_cols (im_width im) bs) \<le> 1 * 1"
    by (rule mult_le_mono)
  then show False using two unfolding spec_block_count_eq[OF bs] by simp
qed

text \<open>
  Claim C9. For a block size \<open>> 0\<close> and a key of the right length whose entries lie in
  \<open>[0, BlockCount)\<close> but repeat: the length check passes, nothing checks that the key is a
  bijection, and the reconstruction loop runs to its end, leaving at least one slot
  \<^verbatim>\<open>None\<close>. The run does not end in the key-size branch; it ends later, when the paste
  loop hands a \<^verbatim>\<open>None\<close> slot to the library, in the generic handler with a
  \<^verbatim>\<open>ValueError\<close>.
\<close>

theorem duplicate_key_not_rejected:
  fixes scrambled_img :: image and block_size :: int and permutation :: "int list"
  defines "n \<equiv> spec_block_count (im_width scrambled_img) (im_height scrambled_img) block_size"
  defines "scrambled_blocks \<equiv> scrambled_blocks_of scrambled_img block_size
             (spec_cols (im_width scrambled_img) block_size)
             (spec_rows (im_height scrambled_img) block_size)"
  assumes bs: "0 < block_size"
    and len: "length permutation = n"
    and rng: "\<forall>k<n. 0 \<le> permutation ! k \<and> permutation ! k < int n"
    and dup: "\<not> distinct permutation"
  shows "(\<exists>slots. reconstruct scrambled_blocks permutation = Inr slots \<and> length slots = n \<and>
            None \<in> set slots) \<and>
         block_unscramble scrambled_img permutation block_size = Inl (Unexpected ValueError)"
proof -
  let ?sb = "scrambled_blocks_of scrambled_img block_size
             (spec_cols (im_width scrambled_img) block_size)
             (spec_cols (im_height scrambled_img) block_size)"
  have sb: "scrambled_blocks = ?sb" unfolding scrambled_blocks_def spec_rows_as_cols ..
  have lb: "length ?sb = n" unfolding n_def by (rule length_scrambled_blocks_of[OF bs])
  have lk: "length permutation = length ?sb" using len lb by simp
  have "2 \<le> length permutation" using dup by (cases permutation rule: list.exhaust) (auto simp: Suc_le_eq)
  then have "2 \<le> spec_block_count (im_width scrambled_img) (im_height scrambled_img) block_size"
    using len unfolding n_def by simp
  then have ex: "grid_exact scrambled_img block_size"
    by (rule grid_exact_bound[OF bs two_blocks_bound[OF bs]])
  have rng': "\<forall>k < length ?sb. 0 \<le> permutation ! k \<and> permutation ! k < int (length ?sb)"
    using rng lb by simp
  from reconstruct_prefix[OF lk rng' order_refl] obtain slots where
    run: "for_each (reconstruct_step ?sb permutation) [0..<length ?sb]
            (replicate (length ?sb) None) = Inr slots"
    and l: "length slots = length ?sb"
    and none: "\<forall>p < length ?sb. (\<forall>k<length ?sb. permutation ! k \<noteq> int p) \<longrightarrow> slots ! p = None"
    by blast
  have rec: "reconstruct ?sb permutation = Inr slots"
    using run lk by (simp add: reconstruct_def)
  from missing_index[OF len dup] obtain p where p: "p < n" "\<forall>k<n. permutation ! k \<noteq> int p"
    by blast
  then have pn: "slots ! p = None" using none lb by simp
  then have "None \<in> set slots" using p(1) l lb by (metis nth_mem)
  moreover
  have c: "0 \<le> spec_cols (im_width scrambled_img) block_size"
    and r: "0 \<le> spec_cols (im_height scrambled_img) block_size"
    using bs by (simp_all add: spec_cols_nonneg)
  have n: "nat (spec_cols (im_height scrambled_img) block_size) *
           nat (spec_cols (im_width scrambled_img) block_size) = n"
    unfolding n_def by (rule spec_block_count_eq[OF bs, symmetric])
  have loop: "for_each (unscramble_step slots block_size)
          (grid_positions (spec_cols (im_height scrambled_img) block_size)
             (spec_cols (im_width scrambled_img) block_size))
          (image_new (im_width scrambled_img) (im_height scrambled_img), 0) = Inl ValueError"
    unfolding grid_positions_eq[OF r c] n
    by (rule unscramble_loop_none[of n slots 0 p]) (use l lb p pn in simp_all)
  have "block_unscramble scrambled_img permutation block_size = Inl (Unexpected ValueError)"
    unfolding block_unscramble_def Let_def grid_exactD[OF ex] sum.case lb rec loop
    using len by simp
  ultimately show ?thesis using rec l lb unfolding sb by blast
qed

text \<open>Claim C9 at the 3 x 1 image with block size 2 and the key \<open>[0, 0]\<close>.\<close>

theorem duplicate_key_not_rejected_witness:
  "length [0, 0 :: int] = spec_block_count (im_width img3) (im_height img3) 2 \<and>
   \<not> distinct [0, 0 :: int] \<and>
   (\<exists>slots. reconstruct (scrambled_blocks_of img3 2 (spec_cols (im_width img3) 2)
                 (spec_rows (im_height img3) 2)) [0, 0] = Inr slots \<and>
      length slots = spec_block_count (im_width img3) (im_height img3) 2 \<and> None \<in> set slots) \<and>
   block_unscramble img3 [0, 0] 2 = Inl (Unexpected ValueError)"
proof -
  have bs: "(0::int) < 2" by simp
  have len: "length [0, 0 :: int] = spec_block_count (im_width img3) (im_height img3) 2"
    unfolding img3_size spec_grid_3_1_2 by simp
  have rng: "\<forall>k<(spec_block_count (im_width img3) (im_height img3) 2).
               0 \<le> [0, 0 :: int] ! k \<and> [0, 0 :: int] ! k < int (spec_block_count (im_width img3) (im_height img3) 2)"
    unfolding img3_size spec_grid_3_1_2 by (simp add: nth_Cons split: nat.splits)
  have dup: "\<not> distinct [0, 0 :: int]" by simp
  from duplicate_key_not_rejected[where scrambled_img=img3 and block_size=2 and permutation="[0, 0]",
      OF bs len rng dup] len dup
  show ?thesis by blast
qed

end
